theory Spec2Isabelle
  imports Main "HOL-Library.AList" "HOL-Library.Multiset" "HOL-Library.Product_Lexorder"
    "HOL-Library.Char_ord" "HOL-Library.List_Lexorder"
begin

section \<open>Data model of Dijkstra.py\<close>

text \<open>
  A Python dict is an association list in insertion order; \<open>d[k]\<close> is \<open>map_of d k\<close>
  (a missing key raises \<open>KeyError\<close>), \<open>d[k] = v\<close> is \<open>AList.update k v d\<close> (the key
  keeps its position, a new key goes to the end), and iterating \<open>d.items()\<close> walks the
  list. The graph is a dict of dicts, \<open>{'A': {'B': 4, 'C': 2}, ...}\<close>. Weights are
  Python integers; a distance is an integer or \<open>float('inf')\<close>.
\<close>

type_synonym 'a grafo = "('a \<times> ('a \<times> int) list) list"

datatype dist = Fin int | Infinito

datatype 'a error = KeyError 'a

text \<open>\<open>nueva_dist < distancias[vecino]\<close>: an integer against an integer or infinity.\<close>

fun menor :: "int \<Rightarrow> dist \<Rightarrow> bool" where
  "menor n (Fin k) = (n < k)"
| "menor n Infinito = True"

text \<open>
  What \<open>mostrar_pasos\<close> prints: the block of a step (step number, selected node,
  confirmed distance and the items of \<open>distancias\<close> at that moment), and the line of
  a relaxation (neighbour, new distance, the node it comes from).
\<close>

datatype 'a linea =
  Paso nat 'a int "('a \<times> dist) list"
| Actualizando 'a int 'a

record 'a estado =
  distancias :: "('a \<times> dist) list"
  anterior :: "('a \<times> 'a option) list"
  cola :: "(int \<times> 'a) list"
  visitados :: "'a set"
  paso :: nat
  salida :: "'a linea list"

section \<open>The priority queue\<close>

text \<open>
  \<open>heapq\<close> is used through its contract: on a list that only \<open>heappush\<close> and
  \<open>heappop\<close> have touched, \<open>heappop\<close> removes and returns the smallest item. Items
  are tuples \<open>(distance, node)\<close>, compared lexicographically as Python compares tuples.
\<close>

definition heappush :: "('b::linorder) list \<Rightarrow> 'b \<Rightarrow> 'b list" where
  "heappush q x = q @ [x]"

definition heappop :: "('b::linorder) list \<Rightarrow> 'b \<times> 'b list" where
  "heappop q = (let x = Min (set q) in (x, remove1 x q))"

section \<open>dijkstra\<close>

text \<open>
  The \<open>for vecino, peso in grafo[nodo_actual].items()\<close> loop. An exception leaves
  the function with what was printed so far.
\<close>

fun relajar :: "bool \<Rightarrow> 'a \<Rightarrow> int \<Rightarrow> ('a \<times> int) list \<Rightarrow> ('a::linorder) estado
    \<Rightarrow> ('a error \<times> 'a linea list) + 'a estado" where
  "relajar mostrar_pasos nodo_actual distancia_actual [] s = Inr s"
| "relajar mostrar_pasos nodo_actual distancia_actual ((vecino, peso) # resto) s =
     (if vecino \<in> visitados s
      then relajar mostrar_pasos nodo_actual distancia_actual resto s
      else
        let nueva_dist = distancia_actual + peso in
        case map_of (distancias s) vecino of
          None \<Rightarrow> Inl (KeyError vecino, salida s)
        | Some dv \<Rightarrow>
            if menor nueva_dist dv
            then relajar mostrar_pasos nodo_actual distancia_actual resto
              (s\<lparr>distancias := AList.update vecino (Fin nueva_dist) (distancias s),
                 anterior := AList.update vecino (Some nodo_actual) (anterior s),
                 cola := heappush (cola s) (nueva_dist, vecino),
                 salida := (if mostrar_pasos
                            then salida s @ [Actualizando vecino nueva_dist nodo_actual]
                            else salida s)\<rparr>)
            else relajar mostrar_pasos nodo_actual distancia_actual resto s)"

text \<open>One pass through the body of \<open>while cola\<close>, entered with a non-empty queue.\<close>

datatype 'a vuelta =
  Sigue "'a estado"
| Corta "'a estado"
| Falla "'a error" "'a linea list"

definition iteracion :: "('a::linorder) grafo \<Rightarrow> 'a option \<Rightarrow> bool \<Rightarrow> 'a estado \<Rightarrow> 'a vuelta" where
  "iteracion grafo fin mostrar_pasos s =
     (let ((distancia_actual, nodo_actual), resto) = heappop (cola s);
          s1 = s\<lparr>cola := resto\<rparr>
      in
        if nodo_actual \<in> visitados s1 then Sigue s1
        else
          let s2 = s1\<lparr>visitados := insert nodo_actual (visitados s1)\<rparr>;
              s3 = (if mostrar_pasos
                    then s2\<lparr>salida := salida s2 @
                               [Paso (paso s2) nodo_actual distancia_actual (distancias s2)],
                            paso := paso s2 + 1\<rparr>
                    else s2)
          in
            if fin = Some nodo_actual then Corta s3
            else
              case map_of grafo nodo_actual of
                None \<Rightarrow> Falla (KeyError nodo_actual) (salida s3)
              | Some vecinos \<Rightarrow>
                  (case relajar mostrar_pasos nodo_actual distancia_actual vecinos s3 of
                     Inl (e, out) \<Rightarrow> Falla e out
                   | Inr s4 \<Rightarrow> Sigue s4))"

text \<open>The \<open>while cola\<close> loop.\<close>

function bucle :: "('a::linorder) grafo \<Rightarrow> 'a option \<Rightarrow> bool \<Rightarrow> 'a estado
    \<Rightarrow> ('a error \<times> 'a linea list) + 'a estado" where
  "bucle grafo fin mostrar_pasos s =
     (if cola s = [] then Inr s
      else
        case iteracion grafo fin mostrar_pasos s of
          Sigue s' \<Rightarrow> bucle grafo fin mostrar_pasos s'
        | Corta s' \<Rightarrow> Inr s'
        | Falla e out \<Rightarrow> Inl (e, out))"
  by pat_completeness auto
termination
proof (relation "inv_image (finite_psubset <*lex*> less_than)
        (\<lambda>(g, fin, m, s). (fst ` set g - visitados s, length (cola s)))")
  show "wf (inv_image (finite_psubset <*lex*> less_than)
        (\<lambda>(g :: 'a grafo, fin :: 'a option, m :: bool, s :: 'a estado).
           (fst ` set g - visitados s, length (cola s))))"
    by (intro wf_inv_image wf_lex_prod wf_finite_psubset wf_less_than)
next
  fix grafo :: "'a grafo" and fin m and s s' :: "'a estado"
  assume vacia: "cola s \<noteq> []" and sigue: "iteracion grafo fin m s = Sigue s'"
  have rv: "relajar m u d vs t = Inr t' \<Longrightarrow> visitados t' = visitados t"
    for u d vs and t t' :: "'a estado"
    by (induction vs arbitrary: t) (auto split: if_splits option.splits simp: Let_def)
  obtain d u where du: "fst (heappop (cola s)) = (d, u)"
    by (cases "fst (heappop (cola s))")
  have resto: "snd (heappop (cola s)) = remove1 (d, u) (cola s)"
    using du by (simp add: heappop_def Let_def)
  have "(d, u) \<in> set (cola s)"
    using du vacia by (simp add: heappop_def Let_def) (metis Min_in List.finite_set set_empty)
  then have corta: "length (remove1 (d, u) (cola s)) < length (cola s)"
    using vacia by (simp add: length_remove1)
  have "(fst ` set grafo - visitados s', length (cola s'))
      \<in> {(A, n). A \<subset> fst ` set grafo - visitados s \<or>
                  A = fst ` set grafo - visitados s \<and> n < length (cola s)}"
  proof (cases "u \<in> visitados s")
    case True
    then have "iteracion grafo fin m s = Sigue (s\<lparr>cola := snd (heappop (cola s))\<rparr>)"
      using du by (simp add: iteracion_def split_beta)
    with sigue have "s' = s\<lparr>cola := remove1 (d, u) (cola s)\<rparr>"
      by (simp add: resto)
    with corta show ?thesis by simp
  next
    case False
    define s3 where "s3 =
      (let s2 = s\<lparr>cola := snd (heappop (cola s)), visitados := insert u (visitados s)\<rparr>
       in if m then s2\<lparr>salida := salida s2 @ [Paso (paso s2) u d (distancias s2)],
                       paso := paso s2 + 1\<rparr>
          else s2)"
    have v3: "visitados s3 = insert u (visitados s)"
      by (simp add: s3_def Let_def)
    have eq: "iteracion grafo fin m s =
       (if fin = Some u then Corta s3
        else case map_of grafo u of
               None \<Rightarrow> Falla (KeyError u) (salida s3)
             | Some vs \<Rightarrow>
                 (case relajar m u d vs s3 of
                    Inl (e, out) \<Rightarrow> Falla e out
                  | Inr s4 \<Rightarrow> Sigue s4))"
      using du False
      by (simp add: iteracion_def s3_def split_beta Let_def
          cong: option.case_cong sum.case_cong)
    from sigue obtain vs where vs: "map_of grafo u = Some vs"
      and r: "relajar m u d vs s3 = Inr s'"
      unfolding eq by (auto split: if_splits option.splits sum.splits)
    from r have "visitados s' = insert u (visitados s)"
      using rv v3 by simp
    moreover from vs have "u \<in> fst ` set grafo"
      by (metis map_of_SomeD fst_conv image_eqI)
    ultimately have "fst ` set grafo - visitados s' \<subset> fst ` set grafo - visitados s"
      using False by auto
    then show ?thesis by simp
  qed
  then show "((grafo, fin, m, s'), (grafo, fin, m, s))
      \<in> inv_image (finite_psubset <*lex*> less_than)
        (\<lambda>(g, fin, m, s). (fst ` set g - visitados s, length (cola s)))"
    by (simp add: finite_psubset_def)
qed

declare bucle.simps [simp del]

text \<open>
  \<open>dijkstra(grafo, inicio, fin=None, mostrar_pasos=True)\<close>: what it printed, and
  the pair \<open>(distancias, anterior)\<close> it returns or the exception it raises.
\<close>

definition estado_inicial :: "('a::linorder) grafo \<Rightarrow> 'a \<Rightarrow> 'a estado" where
  "estado_inicial grafo inicio =
     \<lparr>distancias = AList.update inicio (Fin 0) (map (\<lambda>(nodo, _). (nodo, Infinito)) grafo),
      anterior = map (\<lambda>(nodo, _). (nodo, None)) grafo,
      cola = [(0, inicio)],
      visitados = {},
      paso = 0,
      salida = []\<rparr>"

definition dijkstra :: "('a::linorder) grafo \<Rightarrow> 'a \<Rightarrow> 'a option \<Rightarrow> bool
    \<Rightarrow> 'a linea list \<times> ('a error + ('a \<times> dist) list \<times> ('a \<times> 'a option) list)" where
  "dijkstra grafo inicio fin mostrar_pasos =
     (case bucle grafo fin mostrar_pasos (estado_inicial grafo inicio) of
        Inl (e, out) \<Rightarrow> (out, Inl e)
      | Inr s \<Rightarrow> (salida s, Inr (distancias s, anterior s)))"

section \<open>reconstruir\_camino\<close>

text \<open>
  The \<open>while nodo is not None\<close> loop follows \<open>anterior\<close> for as long as it finds
  a node; nothing in it bounds the number of turns, so it is a partial function
  (\<open>None\<close>: it never returns). The argument \<open>fin\<close> may itself be \<open>None\<close>.
\<close>

partial_function (option) seguir :: "('a \<times> 'a option) list \<Rightarrow> 'a option \<Rightarrow> 'a list
    \<Rightarrow> ('a error + 'a list) option" where
  "seguir anterior' nodo camino =
     (case nodo of
        None \<Rightarrow> Some (Inr camino)
      | Some n \<Rightarrow>
          (case map_of anterior' n of
             None \<Rightarrow> Some (Inl (KeyError n))
           | Some sig \<Rightarrow> seguir anterior' sig (camino @ [n])))"

definition reconstruir_camino :: "('a \<times> 'a option) list \<Rightarrow> 'a \<Rightarrow> 'a option
    \<Rightarrow> ('a error + 'a list) option" where
  "reconstruir_camino anterior' inicio fin =
     (case seguir anterior' fin [] of
        None \<Rightarrow> None
      | Some (Inl e) \<Rightarrow> Some (Inl e)
      | Some (Inr camino) \<Rightarrow>
          (let camino = rev camino in
           if camino = [] \<or> hd camino \<noteq> inicio then Some (Inr []) else Some (Inr camino)))"

section \<open>The main block\<close>

definition grafo_ejemplo :: "string grafo" where
  "grafo_ejemplo =
     [(''A'', [(''B'', 4), (''C'', 2)]),
      (''B'', [(''C'', 5), (''D'', 10)]),
      (''C'', [(''D'', 3)]),
      (''D'', [])]"



section \<open>The three state changes of the loop\<close>

text \<open>
  The loop changes its state in three ways only: it drops a popped entry whose node is
  already visited, it settles the popped node, and it improves the distance of one
  neighbour. They are named here so that the lemmas below can speak about them.
\<close>

definition descartar :: "('a::linorder) estado \<Rightarrow> 'a estado" where
  "descartar s = s\<lparr>cola := snd (heappop (cola s))\<rparr>"

definition asentar :: "bool \<Rightarrow> 'a \<Rightarrow> int \<Rightarrow> ('a::linorder) estado \<Rightarrow> 'a estado" where
  "asentar m u d s =
     (let s2 = s\<lparr>cola := snd (heappop (cola s)), visitados := insert u (visitados s)\<rparr>
      in if m then s2\<lparr>salida := salida s2 @ [Paso (paso s2) u d (distancias s2)],
                      paso := paso s2 + 1\<rparr>
         else s2)"

definition mejora :: "bool \<Rightarrow> 'a \<Rightarrow> 'a \<Rightarrow> int \<Rightarrow> ('a::linorder) estado \<Rightarrow> 'a estado" where
  "mejora m u v x s =
     s\<lparr>distancias := AList.update v (Fin x) (distancias s),
       anterior := AList.update v (Some u) (anterior s),
       cola := heappush (cola s) (x, v),
       salida := (if m then salida s @ [Actualizando v x u] else salida s)\<rparr>"

definition paso_relajar :: "bool \<Rightarrow> 'a \<Rightarrow> int \<Rightarrow> 'a \<times> int \<Rightarrow> ('a::linorder) estado
    \<Rightarrow> ('a error \<times> 'a linea list) + 'a estado" where
  "paso_relajar m u d e s =
     (if fst e \<in> visitados s then Inr s
      else case map_of (distancias s) (fst e) of
             None \<Rightarrow> Inl (KeyError (fst e), salida s)
           | Some y \<Rightarrow> if menor (d + snd e) y then Inr (mejora m u (fst e) (d + snd e) s)
                       else Inr s)"

section \<open>Graphs and paths\<close>

text \<open>
  \<open>arista g u v w\<close>: \<open>v\<close> is a key of \<open>grafo[u]\<close>, with the weight \<open>w\<close>. A path is a
  list of edges, each starting at the node where the one before it ends; its weight is
  the sum of the weights of its edges.
\<close>

definition arista :: "'a grafo \<Rightarrow> 'a \<Rightarrow> 'a \<Rightarrow> int \<Rightarrow> bool" where
  "arista g u v w = (case map_of g u of None \<Rightarrow> False | Some vs \<Rightarrow> (v, w) \<in> set vs)"

fun es_camino :: "'a grafo \<Rightarrow> 'a \<Rightarrow> ('a \<times> 'a \<times> int) list \<Rightarrow> 'a \<Rightarrow> bool" where
  "es_camino g a [] b = (a = b)"
| "es_camino g a ((u, v, w) # es) b = (u = a \<and> arista g u v w \<and> es_camino g v es b)"

definition peso_camino :: "('a \<times> 'a \<times> int) list \<Rightarrow> int" where
  "peso_camino es = sum_list (map (\<lambda>(u, v, w). w) es)"

text \<open>
  No weight of the graph is negative; and every node named as a neighbour is itself a
  key of the graph.
\<close>

definition pesos_no_negativos :: "'a grafo \<Rightarrow> bool" where
  "pesos_no_negativos g = (\<forall>(u, vs) \<in> set g. \<forall>(v, w) \<in> set vs. 0 \<le> w)"

definition cerrado :: "'a grafo \<Rightarrow> bool" where
  "cerrado g = (\<forall>(u, vs) \<in> set g. \<forall>(v, w) \<in> set vs. v \<in> fst ` set g)"

section \<open>Invariants of the loop\<close>

text \<open>
  What holds of the keys, the queue and the distances at every moment of a run from
  \<open>a\<close>: the keys of \<open>distancias\<close> are those of the graph and \<open>a\<close>, those of
  \<open>anterior\<close> are those of the graph; the distance of \<open>a\<close> is 0; \<open>a\<close> is visited, or
  nothing is and the queue holds \<open>(0, a)\<close> alone; the distance of a node that is not
  visited is at most that of each of its entries in the queue, and is itself in the
  queue when it is finite. \<open>curso\<close> adds what holds while the edges of \<open>u\<close>, popped
  at distance \<open>d\<close>, are relaxed.
\<close>

definition inv_cola :: "('a::linorder) grafo \<Rightarrow> 'a \<Rightarrow> 'a estado \<Rightarrow> bool" where
  "inv_cola g a s \<longleftrightarrow>
     dom (map_of (distancias s)) = insert a (fst ` set g)
   \<and> dom (map_of (anterior s)) = fst ` set g
   \<and> map_of (distancias s) a = Some (Fin 0)
   \<and> (a \<in> visitados s \<or> cola s = [(0, a)] \<and> visitados s = {})
   \<and> (\<forall>x v. (x, v) \<in> set (cola s) \<longrightarrow> v \<notin> visitados s \<longrightarrow>
         (\<exists>y\<le>x. map_of (distancias s) v = Some (Fin y)))
   \<and> (\<forall>v y. v \<notin> visitados s \<longrightarrow> map_of (distancias s) v = Some (Fin y) \<longrightarrow>
         (y, v) \<in> set (cola s))"

definition curso :: "('a::linorder) grafo \<Rightarrow> 'a \<Rightarrow> 'a \<Rightarrow> int \<Rightarrow> 'a estado \<Rightarrow> bool" where
  "curso g a u d s \<longleftrightarrow>
     inv_cola g a s \<and> u \<in> visitados s \<and> map_of (distancias s) u = Some (Fin d)"

text \<open>
  \<open>llega V ant v\<close>: following \<open>ant\<close> from \<open>v\<close> one stays in \<open>V\<close> and ends at a node
  whose predecessor is \<open>None\<close>. Every predecessor is a visited key of the graph, set
  for a node other than \<open>a\<close> whose distance is finite, and from every visited key the
  predecessors lead to an end.
\<close>

inductive llega :: "'a set \<Rightarrow> ('a \<times> 'a option) list \<Rightarrow> 'a \<Rightarrow> bool"
  for V :: "'a set" and ant :: "('a \<times> 'a option) list" where
  raiz: "v \<in> V \<Longrightarrow> map_of ant v = Some None \<Longrightarrow> llega V ant v"
| enlace: "v \<in> V \<Longrightarrow> map_of ant v = Some (Some p) \<Longrightarrow> llega V ant p \<Longrightarrow> llega V ant v"

definition inv_ant :: "('a::linorder) grafo \<Rightarrow> 'a \<Rightarrow> 'a estado \<Rightarrow> bool" where
  "inv_ant g a s \<longleftrightarrow>
     (\<forall>v p. map_of (anterior s) v = Some (Some p) \<longrightarrow>
        p \<in> visitados s \<and> p \<in> fst ` set g \<and> v \<noteq> a
        \<and> (\<exists>x. map_of (distancias s) v = Some (Fin x)))
   \<and> (\<forall>v. v \<in> visitados s \<longrightarrow> v \<in> fst ` set g \<longrightarrow> llega (visitados s) (anterior s) v)"

text \<open>Every finite distance, and every entry of the queue, is the weight of a path.\<close>

definition inv_alc :: "('a::linorder) grafo \<Rightarrow> 'a \<Rightarrow> 'a estado \<Rightarrow> bool" where
  "inv_alc g a s \<longleftrightarrow>
     (\<forall>v x. map_of (distancias s) v = Some (Fin x) \<longrightarrow>
        (\<exists>es. es_camino g a es v \<and> peso_camino es = x))
   \<and> (\<forall>x v. (x, v) \<in> set (cola s) \<longrightarrow> (\<exists>es. es_camino g a es v \<and> peso_camino es = x))"

text \<open>The three invariants together, at the head of the loop and while relaxing.\<close>

definition inv_estr :: "('a::linorder) grafo \<Rightarrow> 'a \<Rightarrow> 'a estado \<Rightarrow> bool" where
  "inv_estr g a s \<longleftrightarrow> inv_cola g a s \<and> inv_ant g a s \<and> inv_alc g a s"

definition curso_estr :: "('a::linorder) grafo \<Rightarrow> 'a \<Rightarrow> 'a \<Rightarrow> int \<Rightarrow> 'a estado \<Rightarrow> bool" where
  "curso_estr g a u d s \<longleftrightarrow> curso g a u d s \<and> inv_ant g a s \<and> inv_alc g a s"

text \<open>Some path leads from \<open>a\<close> to \<open>n\<close>.\<close>

definition alcanzable :: "'a grafo \<Rightarrow> 'a \<Rightarrow> 'a \<Rightarrow> bool" where
  "alcanzable g a n \<longleftrightarrow> (\<exists>es. es_camino g a es n)"

text \<open>
  The distance of a visited node is finite, and every edge out of a visited node into a
  node that is not visited has been relaxed: the distance of its end is at most the
  distance of its start plus its weight. While the edges of \<open>u\<close> are relaxed this holds
  of the edges of \<open>u\<close> already seen, \<open>D\<close>, and of all edges of the other visited nodes.
\<close>

definition inv_rel :: "('a::linorder) grafo \<Rightarrow> 'a estado \<Rightarrow> bool" where
  "inv_rel g s \<longleftrightarrow>
     (\<forall>v. v \<in> visitados s \<longrightarrow> (\<exists>x. map_of (distancias s) v = Some (Fin x)))
   \<and> (\<forall>u v w x. u \<in> visitados s \<longrightarrow> arista g u v w \<longrightarrow> v \<notin> visitados s \<longrightarrow>
         map_of (distancias s) u = Some (Fin x) \<longrightarrow>
         (\<exists>y\<le>x + w. map_of (distancias s) v = Some (Fin y)))"

definition curso_rel :: "('a::linorder) grafo \<Rightarrow> 'a \<Rightarrow> ('a \<times> int) set \<Rightarrow> 'a estado \<Rightarrow> bool" where
  "curso_rel g u D s \<longleftrightarrow>
     (\<forall>v. v \<in> visitados s \<longrightarrow> (\<exists>x. map_of (distancias s) v = Some (Fin x)))
   \<and> (\<forall>u' v w x. u' \<in> visitados s \<longrightarrow> arista g u' v w \<longrightarrow> u' \<noteq> u \<or> (v, w) \<in> D \<longrightarrow>
         v \<notin> visitados s \<longrightarrow> map_of (distancias s) u' = Some (Fin x) \<longrightarrow>
         (\<exists>y\<le>x + w. map_of (distancias s) v = Some (Fin y)))"

text \<open>
  No path from \<open>a\<close> to a visited node weighs less than the distance of the node; and
  \<open>d\<close> is the least weight of the paths from \<open>a\<close> to \<open>n\<close>.
\<close>

definition inv_min :: "('a::linorder) grafo \<Rightarrow> 'a \<Rightarrow> 'a estado \<Rightarrow> bool" where
  "inv_min g a s \<longleftrightarrow>
     (\<forall>v x es. v \<in> visitados s \<longrightarrow> map_of (distancias s) v = Some (Fin x) \<longrightarrow>
        es_camino g a es v \<longrightarrow> x \<le> peso_camino es)"

definition distancia_minima :: "'a grafo \<Rightarrow> 'a \<Rightarrow> 'a \<Rightarrow> int \<Rightarrow> bool" where
  "distancia_minima g a n d \<longleftrightarrow>
     (\<exists>es. es_camino g a es n \<and> peso_camino es = d)
   \<and> (\<forall>es. es_camino g a es n \<longrightarrow> d \<le> peso_camino es)"

text \<open>
  All of the above together; the minimality of the distances is kept only for graphs
  with no negative weight.
\<close>

definition inv_corr :: "('a::linorder) grafo \<Rightarrow> 'a \<Rightarrow> 'a estado \<Rightarrow> bool" where
  "inv_corr g a s \<longleftrightarrow>
     inv_estr g a s \<and> inv_rel g s \<and> (pesos_no_negativos g \<longrightarrow> inv_min g a s)"

definition curso_corr :: "('a::linorder) grafo \<Rightarrow> 'a \<Rightarrow> 'a \<Rightarrow> int \<Rightarrow> ('a \<times> int) set
    \<Rightarrow> 'a estado \<Rightarrow> bool" where
  "curso_corr g a u d D s \<longleftrightarrow>
     curso_estr g a u d s \<and> curso_rel g u D s \<and> (pesos_no_negativos g \<longrightarrow> inv_min g a s)"

section \<open>Reading the printed trace\<close>

text \<open>
  The nodes settled and their confirmed distances, in the order of the printed steps,
  and the numbers of the steps.
\<close>

fun asentados :: "'a linea list \<Rightarrow> ('a \<times> int) list" where
  "asentados [] = []"
| "asentados (Paso k n d snap # ls) = (n, d) # asentados ls"
| "asentados (Actualizando v x p # ls) = asentados ls"

fun numeros :: "'a linea list \<Rightarrow> nat list" where
  "numeros [] = []"
| "numeros (Paso k n d snap # ls) = k # numeros ls"
| "numeros (Actualizando v x p # ls) = numeros ls"

text \<open>
  Every printed step shows, for its own node, the confirmed distance, and its
  snapshot has the keys \<open>K\<close>.
\<close>

fun instantaneas :: "'a set \<Rightarrow> 'a linea list \<Rightarrow> bool" where
  "instantaneas K [] = True"
| "instantaneas K (Paso k n d snap # ls) =
     (map_of snap n = Some (Fin d) \<and> fst ` set snap = K \<and> instantaneas K ls)"
| "instantaneas K (Actualizando v x p # ls) = instantaneas K ls"

text \<open>
  The entry of \<open>n\<close> stays at \<open>d\<close> in the lines \<open>ls\<close>: no line updates \<open>n\<close>, and every
  snapshot shows \<open>d\<close> for it. \<open>traza_fija\<close> asks this of every settled node and the
  lines printed after its step.
\<close>

fun fijo_tras :: "'a \<Rightarrow> int \<Rightarrow> 'a linea list \<Rightarrow> bool" where
  "fijo_tras n d [] = True"
| "fijo_tras n d (Paso k n' d' snap # ls) = (map_of snap n = Some (Fin d) \<and> fijo_tras n d ls)"
| "fijo_tras n d (Actualizando v x p # ls) = (v \<noteq> n \<and> fijo_tras n d ls)"

fun traza_fija :: "'a linea list \<Rightarrow> bool" where
  "traza_fija [] = True"
| "traza_fija (Paso k n d snap # ls) = (fijo_tras n d ls \<and> traza_fija ls)"
| "traza_fija (Actualizando v x p # ls) = traza_fija ls"




text \<open>
  The trace against the state: the settled nodes of the trace are visited and still at
  their confirmed distance; with \<open>mostrar_pasos\<close> on they are all the visited nodes,
  numbered up to \<open>paso\<close>, and with it off the trace is empty. \<open>inv_orden\<close>: the
  confirmed distances are in order and none exceeds an entry of the queue.
\<close>

definition inv_traza :: "('a::linorder) grafo \<Rightarrow> 'a \<Rightarrow> bool \<Rightarrow> 'a estado \<Rightarrow> bool" where
  "inv_traza g a m s \<longleftrightarrow>
     (\<forall>n x. (n, x) \<in> set (asentados (salida s)) \<longrightarrow>
        n \<in> visitados s \<and> map_of (distancias s) n = Some (Fin x))
   \<and> traza_fija (salida s)
   \<and> distinct (map fst (asentados (salida s)))
   \<and> instantaneas (insert a (fst ` set g)) (salida s)
   \<and> (if m then fst ` set (asentados (salida s)) = visitados s
              \<and> numeros (salida s) = [0..<paso s]
       else salida s = [])"

definition inv_orden :: "('a::linorder) estado \<Rightarrow> bool" where
  "inv_orden s \<longleftrightarrow>
     sorted (map snd (asentados (salida s)))
   \<and> (\<forall>n x y v. (n, x) \<in> set (asentados (salida s)) \<longrightarrow> (y, v) \<in> set (cola s) \<longrightarrow> x \<le> y)"

definition curso_orden :: "int \<Rightarrow> ('a::linorder) estado \<Rightarrow> bool" where
  "curso_orden d s \<longleftrightarrow>
     sorted (map snd (asentados (salida s)))
   \<and> (\<forall>n x. (n, x) \<in> set (asentados (salida s)) \<longrightarrow> x \<le> d)
   \<and> (\<forall>y v. (y, v) \<in> set (cola s) \<longrightarrow> d \<le> y)"

text \<open>
  The invariants of the trace together; the order of the confirmed distances is kept
  only for graphs with no negative weight.
\<close>

definition inv_reg :: "('a::linorder) grafo \<Rightarrow> 'a \<Rightarrow> bool \<Rightarrow> 'a estado \<Rightarrow> bool" where
  "inv_reg g a m s \<longleftrightarrow>
     inv_cola g a s \<and> inv_traza g a m s \<and> (pesos_no_negativos g \<longrightarrow> inv_orden s)"

definition curso_reg :: "('a::linorder) grafo \<Rightarrow> 'a \<Rightarrow> bool \<Rightarrow> 'a \<Rightarrow> int \<Rightarrow> 'a estado \<Rightarrow> bool" where
  "curso_reg g a m u d s \<longleftrightarrow>
     curso g a u d s \<and> inv_traza g a m s \<and> (pesos_no_negativos g \<longrightarrow> curso_orden d s)"

definition traza_buena :: "('a::linorder) grafo \<Rightarrow> 'a \<Rightarrow> bool \<Rightarrow> 'a estado \<Rightarrow> bool" where
  "traza_buena g a m s \<longleftrightarrow>
     inv_traza g a m s
   \<and> (pesos_no_negativos g \<longrightarrow> sorted (map snd (asentados (salida s))))"

section \<open>What a run depends on\<close>

text \<open>
  Two dicts are equal in Python when they have the same keys with the same values,
  whatever the order in which the keys were inserted; two graphs are equal when they
  have the same keys and, under each key, equal dicts of neighbours.
\<close>

definition mismo_dict :: "('k \<times> 'v) list \<Rightarrow> ('k \<times> 'v) list \<Rightarrow> bool" where
  "mismo_dict xs ys \<longleftrightarrow> distinct (map fst xs) \<and> distinct (map fst ys) \<and> set xs = set ys"

definition mismo_grafo :: "'a grafo \<Rightarrow> 'a grafo \<Rightarrow> bool" where
  "mismo_grafo g h \<longleftrightarrow>
     distinct (map fst g) \<and> distinct (map fst h) \<and> fst ` set g = fst ` set h
   \<and> (\<forall>(u, vs) \<in> set g. \<forall>(u', ws) \<in> set h. u = u' \<longrightarrow> mismo_dict vs ws)"

text \<open>
  The content of a state, with the order of the items of the dicts and the layout of
  the queue forgotten; the trace and the step counter are left out.
\<close>

type_synonym 'a contenido =
  "('a \<rightharpoonup> dist) \<times> ('a \<rightharpoonup> 'a option) \<times> (int \<times> 'a) multiset \<times> 'a set"

definition contenido :: "('a::linorder) estado \<Rightarrow> 'a contenido" where
  "contenido s =
     (map_of (distancias s), map_of (anterior s), mset (cola s), visitados s)"

definition resultado :: "('e + ('a::linorder) estado) \<Rightarrow> 'a contenido option" where
  "resultado r = (case r of Inl f \<Rightarrow> None | Inr s \<Rightarrow> Some (contenido s))"

fun paso_abs :: "'a \<Rightarrow> int \<Rightarrow> 'a \<times> int \<Rightarrow> 'a contenido option \<Rightarrow> 'a contenido option" where
  "paso_abs u d (v, w) None = None"
| "paso_abs u d (v, w) (Some (D, A, Q, V)) =
     (if v \<in> V then Some (D, A, Q, V)
      else case D v of
             None \<Rightarrow> None
           | Some y \<Rightarrow>
               if menor (d + w) y
               then Some (D(v \<mapsto> Fin (d + w)), A(v \<mapsto> Some u), Q + {#(d + w, v)#}, V)
               else Some (D, A, Q, V))"

text \<open>
  Under every key the two graphs have the same neighbours with the same weights, given
  in the same order or, with no neighbour listed twice, in any order.
\<close>

definition vecinos_iguales :: "'a grafo \<Rightarrow> 'a grafo \<Rightarrow> bool" where
  "vecinos_iguales g h \<longleftrightarrow>
     (\<forall>u. case map_of g u of
            None \<Rightarrow> map_of h u = None
          | Some vs \<Rightarrow>
              (\<exists>ws. map_of h u = Some ws \<and> mset vs = mset ws
                 \<and> (vs = ws \<or> distinct (map fst vs))))"

section \<open>The example of the main block\<close>

text \<open>
  C5. On the graph \<open>{A:{B:4,C:2}, B:{C:5,D:10}, C:{D:3}, D:{}}\<close> with source A and
  target D, \<open>dijkstra\<close> returns the distances \<open>{A:0, B:4, C:2, D:5}\<close>, and
  \<open>reconstruir_camino\<close> on the returned predecessors gives the path A, C, D, whose
  total distance, the entry of D, is 5. This holds with tracing on and off.
\<close>

theorem ejemplo_A_D:
  "snd (dijkstra grafo_ejemplo ''A'' (Some ''D'') mostrar_pasos) =
     Inr ([(''A'', Fin 0), (''B'', Fin 4), (''C'', Fin 2), (''D'', Fin 5)],
          [(''A'', None), (''B'', Some ''A''), (''C'', Some ''A''), (''D'', Some ''C'')])
   \<and> reconstruir_camino
         [(''A'', None), (''B'', Some ''A''), (''C'', Some ''A''), (''D'', Some ''C'')]
         ''A'' (Some ''D'') = Some (Inr [''A'', ''C'', ''D''])
   \<and> map_of [(''A'', Fin 0), (''B'', Fin 4), (''C'', Fin 2), (''D'', Fin 5)] ''D''
       = Some (Fin 5)"
proof -
  have "snd (dijkstra grafo_ejemplo ''A'' (Some ''D'') True) =
     Inr ([(''A'', Fin 0), (''B'', Fin 4), (''C'', Fin 2), (''D'', Fin 5)],
          [(''A'', None), (''B'', Some ''A''), (''C'', Some ''A''), (''D'', Some ''C'')])"
    by code_simp
  moreover have "snd (dijkstra grafo_ejemplo ''A'' (Some ''D'') False) =
     Inr ([(''A'', Fin 0), (''B'', Fin 4), (''C'', Fin 2), (''D'', Fin 5)],
          [(''A'', None), (''B'', Some ''A''), (''C'', Some ''A''), (''D'', Some ''C'')])"
    by code_simp
  moreover have "reconstruir_camino
         [(''A'', None), (''B'', Some ''A''), (''C'', Some ''A''), (''D'', Some ''C'')]
         ''A'' (Some ''D'') = Some (Inr [''A'', ''C'', ''D''])"
    by (simp add: reconstruir_camino_def seguir.simps)
  ultimately show ?thesis
    by (cases mostrar_pasos) simp_all
qed

lemma descartar_campos [simp]:
  "distancias (descartar s) = distancias s"
  "anterior (descartar s) = anterior s"
  "cola (descartar s) = snd (heappop (cola s))"
  "visitados (descartar s) = visitados s"
  "paso (descartar s) = paso s"
  "salida (descartar s) = salida s"
  by (simp_all add: descartar_def)

lemma asentar_campos [simp]:
  "distancias (asentar m u d s) = distancias s"
  "anterior (asentar m u d s) = anterior s"
  "cola (asentar m u d s) = snd (heappop (cola s))"
  "visitados (asentar m u d s) = insert u (visitados s)"
  "paso (asentar m u d s) = (if m then paso s + 1 else paso s)"
  "salida (asentar m u d s) =
     (if m then salida s @ [Paso (paso s) u d (distancias s)] else salida s)"
  by (simp_all add: asentar_def Let_def)

lemma mejora_campos [simp]:
  "distancias (mejora m u v x s) = AList.update v (Fin x) (distancias s)"
  "anterior (mejora m u v x s) = AList.update v (Some u) (anterior s)"
  "cola (mejora m u v x s) = cola s @ [(x, v)]"
  "visitados (mejora m u v x s) = visitados s"
  "paso (mejora m u v x s) = paso s"
  "salida (mejora m u v x s) = (if m then salida s @ [Actualizando v x u] else salida s)"
  by (simp_all add: mejora_def heappush_def)

lemma relajar_Cons:
  "relajar m u d (e # vs) s =
     (case paso_relajar m u d e s of Inl f \<Rightarrow> Inl f | Inr t \<Rightarrow> relajar m u d vs t)"
  by (cases e) (simp add: paso_relajar_def mejora_def Let_def split: option.split)

lemma iteracion_visitado:
  assumes "fst (heappop (cola s)) = (d, u)" and "u \<in> visitados s"
  shows "iteracion g fin m s = Sigue (descartar s)"
  using assms by (simp add: iteracion_def descartar_def split_beta)

lemma iteracion_nuevo:
  assumes "fst (heappop (cola s)) = (d, u)" and "u \<notin> visitados s"
  shows "iteracion g fin m s =
     (if fin = Some u then Corta (asentar m u d s)
      else case map_of g u of
             None \<Rightarrow> Falla (KeyError u) (salida (asentar m u d s))
           | Some vs \<Rightarrow>
               (case relajar m u d vs (asentar m u d s) of
                  Inl (e, out) \<Rightarrow> Falla e out
                | Inr s4 \<Rightarrow> Sigue s4))"
  using assms
  by (simp add: iteracion_def asentar_def split_beta Let_def
      cong: option.case_cong sum.case_cong)

section \<open>A rule for invariants of the run\<close>

text \<open>
  \<open>I\<close> holds at the head of the loop, \<open>R u d D\<close> while the edges of the settled node
  \<open>u\<close> are relaxed (\<open>D\<close> holds the edges already seen), and \<open>Q\<close> is what is to be
  shown of the result.
\<close>

lemma paso_relajar_Inl:
  "paso_relajar m u d e s = Inl f \<Longrightarrow>
     fst e \<notin> visitados s \<and> map_of (distancias s) (fst e) = None
     \<and> f = (KeyError (fst e), salida s)"
  by (auto simp: paso_relajar_def split: if_splits option.splits)

lemma relajar_regla:
  assumes "R D s" and "set vs \<subseteq> E"
    and paso: "\<And>D t e t'. R D t \<Longrightarrow> e \<in> E \<Longrightarrow> paso_relajar m u d e t = Inr t'
                 \<Longrightarrow> R (insert e D) t'"
  shows "(\<forall>s'. relajar m u d vs s = Inr s' \<longrightarrow> R (D \<union> set vs) s')
       \<and> (\<forall>f. relajar m u d vs s = Inl f \<longrightarrow>
            (\<exists>D t e. R D t \<and> e \<in> E \<and> paso_relajar m u d e t = Inl f))"
  using assms(1,2)
proof (induction vs arbitrary: s D)
  case Nil
  then show ?case by simp
next
  case (Cons e vs)
  show ?case
  proof (cases "paso_relajar m u d e s")
    case (Inl f)
    moreover from Cons.prems have "e \<in> E" by simp
    ultimately have "\<exists>D t e. R D t \<and> e \<in> E \<and> paso_relajar m u d e t = Inl f"
      using Cons.prems(1) by blast
    with Inl show ?thesis
      by (simp add: relajar_Cons)
  next
    case (Inr t)
    with Cons.prems have "R (insert e D) t"
      by (auto intro: paso)
    moreover from Cons.prems have "set vs \<subseteq> E" by simp
    ultimately have "(\<forall>s'. relajar m u d vs t = Inr s' \<longrightarrow> R (insert e D \<union> set vs) s')
       \<and> (\<forall>f. relajar m u d vs t = Inl f \<longrightarrow>
            (\<exists>D t e. R D t \<and> e \<in> E \<and> paso_relajar m u d e t = Inl f))"
      by (rule Cons.IH)
    with Inr show ?thesis
      by (simp add: relajar_Cons)
  qed
qed

lemma bucle_regla:
  assumes ini: "I s"
    and descarta: "\<And>t d u. I t \<Longrightarrow> cola t \<noteq> [] \<Longrightarrow> fst (heappop (cola t)) = (d, u)
           \<Longrightarrow> u \<in> visitados t \<Longrightarrow> I (descartar t)"
    and asienta: "\<And>t d u. I t \<Longrightarrow> cola t \<noteq> [] \<Longrightarrow> fst (heappop (cola t)) = (d, u)
           \<Longrightarrow> u \<notin> visitados t \<Longrightarrow> R u d {} (asentar m u d t)"
    and relaja: "\<And>u d D t vs e t'. R u d D t \<Longrightarrow> map_of g u = Some vs \<Longrightarrow> e \<in> set vs
           \<Longrightarrow> paso_relajar m u d e t = Inr t' \<Longrightarrow> R u d (insert e D) t'"
    and cierra: "\<And>u d t vs. R u d (set vs) t \<Longrightarrow> map_of g u = Some vs \<Longrightarrow> I t"
    and vacia: "\<And>t. I t \<Longrightarrow> cola t = [] \<Longrightarrow> Q (Inr t)"
    and corta: "\<And>u d t. R u d {} t \<Longrightarrow> fin = Some u \<Longrightarrow> Q (Inr t)"
    and sin_clave: "\<And>u d t. R u d {} t \<Longrightarrow> fin \<noteq> Some u \<Longrightarrow> map_of g u = None
           \<Longrightarrow> Q (Inl (KeyError u, salida t))"
    and falla: "\<And>u d D t vs e f. R u d D t \<Longrightarrow> fin \<noteq> Some u \<Longrightarrow> map_of g u = Some vs
           \<Longrightarrow> e \<in> set vs \<Longrightarrow> paso_relajar m u d e t = Inl f \<Longrightarrow> Q (Inl f)"
  shows "Q (bucle g fin m s)"
  using assms
proof (induction g fin m s rule: bucle.induct)
  case (1 g fin m s)
  note ini = "1.prems"(1) and descarta = "1.prems"(2) and asienta = "1.prems"(3)
    and relaja = "1.prems"(4) and cierra = "1.prems"(5) and vacia = "1.prems"(6)
    and corta = "1.prems"(7) and sin_clave = "1.prems"(8) and falla = "1.prems"(9)
  show ?case
  proof (cases "cola s = []")
    case True
    with ini have "Q (Inr s)" by (rule vacia)
    with True show ?thesis
      by (simp add: bucle.simps)
  next
    case False
    obtain d u where du: "fst (heappop (cola s)) = (d, u)"
      by (cases "fst (heappop (cola s))")
    show ?thesis
    proof (cases "u \<in> visitados s")
      case True
      then have it: "iteracion g fin m s = Sigue (descartar s)"
        using du by (rule iteracion_visitado [rotated])
      have "I (descartar s)"
        using ini False du True by (rule descarta)
      then have "Q (bucle g fin m (descartar s))"
        by (rule "1.IH" [OF False it _ descarta asienta relaja cierra vacia corta
              sin_clave falla])
      moreover have "bucle g fin m s = bucle g fin m (descartar s)"
        using False it by (subst bucle.simps) simp
      ultimately show ?thesis by simp
    next
      case nuevo: False
      have R0: "R u d {} (asentar m u d s)"
        using ini False du nuevo by (rule asienta)
      note it = iteracion_nuevo [OF du nuevo, of g fin m]
      show ?thesis
      proof (cases "fin = Some u")
        case True
        with it have "bucle g fin m s = Inr (asentar m u d s)"
          using False by (subst bucle.simps) simp
        moreover have "Q (Inr (asentar m u d s))"
          using R0 True by (rule corta)
        ultimately show ?thesis by (simp del: asentar_campos)
      next
        case nofin: False
        show ?thesis
        proof (cases "map_of g u")
          case None
          with it nofin have "bucle g fin m s = Inl (KeyError u, salida (asentar m u d s))"
            using False by (subst bucle.simps) simp
          moreover have "Q (Inl (KeyError u, salida (asentar m u d s)))"
            using R0 nofin None by (rule sin_clave)
          ultimately show ?thesis by (simp del: asentar_campos)
        next
          case (Some vs)
          have rel: "(\<forall>s'. relajar m u d vs (asentar m u d s) = Inr s' \<longrightarrow> R u d ({} \<union> set vs) s')
             \<and> (\<forall>f. relajar m u d vs (asentar m u d s) = Inl f
                   \<longrightarrow> (\<exists>D t e. R u d D t \<and> e \<in> set vs \<and> paso_relajar m u d e t = Inl f))"
            using R0 subset_refl
          proof (rule relajar_regla)
            fix D t e t'
            assume "R u d D t" "e \<in> set vs" "paso_relajar m u d e t = Inr t'"
            then show "R u d (insert e D) t'"
              using Some by (intro relaja [of u d D t vs e t'])
          qed
          show ?thesis
          proof (cases "relajar m u d vs (asentar m u d s)")
            case (Inl f)
            obtain e out where f: "f = (e, out)" by (cases f)
            with it nofin Some Inl have "bucle g fin m s = Inl f"
              using False by (subst bucle.simps) simp
            moreover from rel Inl obtain D t e where "R u d D t" "e \<in> set vs"
              "paso_relajar m u d e t = Inl f"
              by blast
            then have "Q (Inl f)"
              using nofin Some by (intro falla [of u d D t vs e f])
            ultimately show ?thesis by simp
          next
            case (Inr s4)
            with it nofin Some have it4: "iteracion g fin m s = Sigue s4"
              by simp
            from rel Inr have "R u d (set vs) s4" by simp
            then have "I s4" using Some by (rule cierra)
            then have "Q (bucle g fin m s4)"
              by (rule "1.IH" [OF False it4 _ descarta asienta relaja cierra vacia corta
                    sin_clave falla])
            moreover have "bucle g fin m s = bucle g fin m s4"
              using False it4 by (subst bucle.simps) simp
            ultimately show ?thesis by simp
          qed
        qed
      qed
    qed
  qed
qed

section \<open>The queue\<close>

lemma heappop_en: "q \<noteq> [] \<Longrightarrow> fst (heappop q) \<in> set q"
  by (simp add: heappop_def Let_def)

lemma heappop_minimo: "x \<in> set q \<Longrightarrow> fst (heappop q) \<le> x"
  by (simp add: heappop_def Let_def)

lemma heappop_resto: "snd (heappop q) = remove1 (fst (heappop q)) q"
  by (simp add: heappop_def Let_def)

lemma heappop_resto_sub: "x \<in> set (snd (heappop q)) \<Longrightarrow> x \<in> set q"
  by (simp add: heappop_resto) (meson notin_set_remove1)

lemma heappop_resto_otro: "x \<in> set q \<Longrightarrow> x \<noteq> fst (heappop q) \<Longrightarrow> x \<in> set (snd (heappop q))"
  by (simp add: heappop_resto)

lemma par_menor_fst: "(d, u) \<le> (y, v) \<Longrightarrow> d \<le> (y :: int)"
  by (auto simp: less_eq_prod_def)

section \<open>Keys, queue and distances\<close>

lemma map_of_inicial:
  "map_of (map (\<lambda>(n, _). (n, c)) g) v = (if v \<in> fst ` set g then Some c else None)"
  by (induction g) (auto split: if_splits)

lemma inv_colaI:
  assumes "dom (map_of (distancias s)) = insert a (fst ` set g)"
    and "dom (map_of (anterior s)) = fst ` set g"
    and "map_of (distancias s) a = Some (Fin 0)"
    and "a \<in> visitados s \<or> cola s = [(0, a)] \<and> visitados s = {}"
    and "\<And>x v. (x, v) \<in> set (cola s) \<Longrightarrow> v \<notin> visitados s \<Longrightarrow>
           \<exists>y\<le>x. map_of (distancias s) v = Some (Fin y)"
    and "\<And>v y. v \<notin> visitados s \<Longrightarrow> map_of (distancias s) v = Some (Fin y) \<Longrightarrow>
           (y, v) \<in> set (cola s)"
  shows "inv_cola g a s"
  unfolding inv_cola_def using assms by blast

lemma inv_cola_claves_dist:
  "inv_cola g a s \<Longrightarrow> dom (map_of (distancias s)) = insert a (fst ` set g)"
  unfolding inv_cola_def by (elim conjE)

lemma inv_cola_claves_ant:
  "inv_cola g a s \<Longrightarrow> dom (map_of (anterior s)) = fst ` set g"
  unfolding inv_cola_def by (elim conjE)

lemma inv_cola_origen:
  "inv_cola g a s \<Longrightarrow> map_of (distancias s) a = Some (Fin 0)"
  unfolding inv_cola_def by (elim conjE)

lemma inv_cola_primero:
  "inv_cola g a s \<Longrightarrow> a \<in> visitados s \<or> cola s = [(0, a)] \<and> visitados s = {}"
  unfolding inv_cola_def by (elim conjE)

lemma inv_cola_entrada:
  "inv_cola g a s \<Longrightarrow> (x, v) \<in> set (cola s) \<Longrightarrow> v \<notin> visitados s \<Longrightarrow>
     \<exists>y\<le>x. map_of (distancias s) v = Some (Fin y)"
  unfolding inv_cola_def by (elim conjE) blast

lemma inv_cola_pendiente:
  "inv_cola g a s \<Longrightarrow> v \<notin> visitados s \<Longrightarrow> map_of (distancias s) v = Some (Fin y) \<Longrightarrow>
     (y, v) \<in> set (cola s)"
  unfolding inv_cola_def by (elim conjE) blast

lemma inv_cola_origen_visitado:
  "inv_cola g a s \<Longrightarrow> u \<in> visitados s \<Longrightarrow> a \<in> visitados s"
  using inv_cola_primero [of g a s] by blast

lemma inv_cola_inicial: "inv_cola g a (estado_inicial g a)"
proof (rule inv_colaI)
  show "dom (map_of (distancias (estado_inicial g a))) = insert a (fst ` set g)"
    by (simp add: estado_inicial_def update_conv' map_of_inicial dom_def) (auto split: if_splits)
  show "dom (map_of (anterior (estado_inicial g a))) = fst ` set g"
    by (simp add: estado_inicial_def map_of_inicial dom_def)
  show "map_of (distancias (estado_inicial g a)) a = Some (Fin 0)"
    by (simp add: estado_inicial_def update_conv')
  show "a \<in> visitados (estado_inicial g a)
      \<or> cola (estado_inicial g a) = [(0, a)] \<and> visitados (estado_inicial g a) = {}"
    by (simp add: estado_inicial_def)
  show "\<exists>y\<le>x. map_of (distancias (estado_inicial g a)) v = Some (Fin y)"
    if "(x, v) \<in> set (cola (estado_inicial g a))" for x v
    using that by (simp add: estado_inicial_def update_conv')
  show "(y, v) \<in> set (cola (estado_inicial g a))"
    if "map_of (distancias (estado_inicial g a)) v = Some (Fin y)" for v y
    using that
    by (simp add: estado_inicial_def update_conv' map_of_inicial split: if_splits)
qed

lemma inv_cola_descartar:
  assumes "inv_cola g a s" and "cola s \<noteq> []" and "fst (heappop (cola s)) = (d, u)"
    and "u \<in> visitados s"
  shows "inv_cola g a (descartar s)"
proof (rule inv_colaI)
  show "dom (map_of (distancias (descartar s))) = insert a (fst ` set g)"
    using assms(1) by (simp add: inv_cola_claves_dist)
  show "dom (map_of (anterior (descartar s))) = fst ` set g"
    using assms(1) by (simp add: inv_cola_claves_ant)
  show "map_of (distancias (descartar s)) a = Some (Fin 0)"
    using assms(1) by (simp add: inv_cola_origen)
  show "a \<in> visitados (descartar s)
      \<or> cola (descartar s) = [(0, a)] \<and> visitados (descartar s) = {}"
    using inv_cola_origen_visitado [OF assms(1,4)] by simp
  show "\<exists>y\<le>x. map_of (distancias (descartar s)) v = Some (Fin y)"
    if "(x, v) \<in> set (cola (descartar s))" "v \<notin> visitados (descartar s)" for x v
  proof -
    from that have "(x, v) \<in> set (cola s)" "v \<notin> visitados s"
      by (simp_all add: heappop_resto_sub)
    with assms(1) show ?thesis
      by (simp add: inv_cola_entrada)
  qed
  show "(y, v) \<in> set (cola (descartar s))"
    if "v \<notin> visitados (descartar s)" "map_of (distancias (descartar s)) v = Some (Fin y)"
    for v y
  proof -
    from that have v: "v \<notin> visitados s" "map_of (distancias s) v = Some (Fin y)"
      by simp_all
    with assms(1) have "(y, v) \<in> set (cola s)" by (rule inv_cola_pendiente)
    moreover have "(y, v) \<noteq> fst (heappop (cola s))"
      using assms(3,4) v(1) by auto
    ultimately show ?thesis
      by (simp add: heappop_resto_otro)
  qed
qed

lemma inv_cola_dist_popped:
  assumes "inv_cola g a s" and "cola s \<noteq> []" and "fst (heappop (cola s)) = (d, u)"
    and "u \<notin> visitados s"
  shows "map_of (distancias s) u = Some (Fin d)"
proof -
  have en: "(d, u) \<in> set (cola s)"
    using heappop_en [OF assms(2)] assms(3) by simp
  from inv_cola_entrada [OF assms(1) en assms(4)]
  obtain y where y: "y \<le> d" "map_of (distancias s) u = Some (Fin y)"
    by blast
  from assms(1,4) y(2) have "(y, u) \<in> set (cola s)"
    by (rule inv_cola_pendiente)
  then have "(d, u) \<le> (y, u)"
    using heappop_minimo [of "(y, u)" "cola s"] assms(3) by simp
  then have "d \<le> y" by (rule par_menor_fst)
  with y show ?thesis by simp
qed

lemma curso_asentar:
  assumes "inv_cola g a s" and "cola s \<noteq> []" and "fst (heappop (cola s)) = (d, u)"
    and "u \<notin> visitados s"
  shows "curso g a u d (asentar m u d s)"
proof -
  have en: "(d, u) \<in> set (cola s)"
    using heappop_en [OF assms(2)] assms(3) by simp
  have "inv_cola g a (asentar m u d s)"
  proof (rule inv_colaI)
    show "dom (map_of (distancias (asentar m u d s))) = insert a (fst ` set g)"
      using assms(1) by (simp add: inv_cola_claves_dist)
    show "dom (map_of (anterior (asentar m u d s))) = fst ` set g"
      using assms(1) by (simp add: inv_cola_claves_ant)
    show "map_of (distancias (asentar m u d s)) a = Some (Fin 0)"
      using assms(1) by (simp add: inv_cola_origen)
    show "a \<in> visitados (asentar m u d s)
      \<or> cola (asentar m u d s) = [(0, a)] \<and> visitados (asentar m u d s) = {}"
      using inv_cola_primero [OF assms(1)] en by auto
    show "\<exists>y\<le>x. map_of (distancias (asentar m u d s)) v = Some (Fin y)"
      if "(x, v) \<in> set (cola (asentar m u d s))" "v \<notin> visitados (asentar m u d s)" for x v
    proof -
      from that have "(x, v) \<in> set (cola s)" "v \<notin> visitados s"
        by (simp_all add: heappop_resto_sub)
      with assms(1) show ?thesis
        by (simp add: inv_cola_entrada)
    qed
    show "(y, v) \<in> set (cola (asentar m u d s))"
      if "v \<notin> visitados (asentar m u d s)"
        "map_of (distancias (asentar m u d s)) v = Some (Fin y)" for v y
    proof -
      from that have v: "v \<notin> visitados s" "v \<noteq> u" "map_of (distancias s) v = Some (Fin y)"
        by simp_all
      from assms(1) v(1,3) have "(y, v) \<in> set (cola s)" by (rule inv_cola_pendiente)
      moreover have "(y, v) \<noteq> fst (heappop (cola s))"
        using assms(3) v(2) by simp
      ultimately show ?thesis
        by (simp add: heappop_resto_otro)
    qed
  qed
  moreover have "map_of (distancias s) u = Some (Fin d)"
    using assms by (rule inv_cola_dist_popped)
  ultimately show ?thesis
    by (simp add: curso_def)
qed

lemma menor_Fin: "menor x y \<Longrightarrow> y = Fin z \<Longrightarrow> x < z"
  by simp

lemma curso_mejora:
  assumes "curso g a u d s" and "v \<notin> visitados s"
    and "map_of (distancias s) v = Some y" and "menor x y"
  shows "curso g a u d (mejora m u v x s)"
proof -
  from assms(1) have inv: "inv_cola g a s" and u: "u \<in> visitados s"
    and du: "map_of (distancias s) u = Some (Fin d)"
    by (simp_all add: curso_def)
  from inv u have a: "a \<in> visitados s"
    by (rule inv_cola_origen_visitado)
  with assms(2) have va: "v \<noteq> a" and vu: "v \<noteq> u" using u by auto
  from assms(3) have vdom: "v \<in> dom (map_of (distancias s))" by auto
  then have vg: "v \<in> fst ` set g"
    using va by (simp add: inv_cola_claves_dist [OF inv])
  have "inv_cola g a (mejora m u v x s)"
  proof (rule inv_colaI)
    show "dom (map_of (distancias (mejora m u v x s))) = insert a (fst ` set g)"
      using vdom by (simp add: update_conv' inv_cola_claves_dist [OF inv] insert_absorb)
    show "dom (map_of (anterior (mejora m u v x s))) = fst ` set g"
      using vg by (simp add: update_conv' inv_cola_claves_ant [OF inv] insert_absorb)
    show "map_of (distancias (mejora m u v x s)) a = Some (Fin 0)"
      using va by (simp add: update_conv' inv_cola_origen [OF inv])
    show "a \<in> visitados (mejora m u v x s)
      \<or> cola (mejora m u v x s) = [(0, a)] \<and> visitados (mejora m u v x s) = {}"
      using a by simp
    show "\<exists>y'\<le>x'. map_of (distancias (mejora m u v x s)) v' = Some (Fin y')"
      if "(x', v') \<in> set (cola (mejora m u v x s))" "v' \<notin> visitados (mejora m u v x s)"
      for x' v'
    proof -
      from that have en: "(x', v') \<in> set (cola s) \<or> (x', v') = (x, v)"
        and nv: "v' \<notin> visitados s"
        by auto
      show ?thesis
      proof (cases "v' = v")
        case True
        have "x \<le> x'"
        proof (cases "(x', v') \<in> set (cola s)")
          case True
          from inv_cola_entrada [OF inv True nv]
          obtain y' where y': "y' \<le> x'" "map_of (distancias s) v' = Some (Fin y')"
            by blast
          with \<open>v' = v\<close> assms(3) have "y = Fin y'" by simp
          with assms(4) have "x < y'" by simp
          with y'(1) show ?thesis by simp
        next
          case False
          with en show ?thesis by simp
        qed
        with True show ?thesis by (simp add: update_conv')
      next
        case False
        with en have "(x', v') \<in> set (cola s)" by simp
        from inv_cola_entrada [OF inv this nv] False show ?thesis
          by (simp add: update_conv')
      qed
    qed
    show "(y', v') \<in> set (cola (mejora m u v x s))"
      if "v' \<notin> visitados (mejora m u v x s)"
        "map_of (distancias (mejora m u v x s)) v' = Some (Fin y')" for v' y'
    proof (cases "v' = v")
      case True
      with that show ?thesis by (simp add: update_conv')
    next
      case False
      with that have "v' \<notin> visitados s" "map_of (distancias s) v' = Some (Fin y')"
        by (simp_all add: update_conv')
      with inv have "(y', v') \<in> set (cola s)" by (rule inv_cola_pendiente)
      then show ?thesis by simp
    qed
  qed
  moreover have "map_of (distancias (mejora m u v x s)) u = Some (Fin d)"
    using du vu by (simp add: update_conv')
  ultimately show ?thesis
    using u by (simp add: curso_def)
qed

lemma paso_relajar_casos:
  assumes "paso_relajar m u d e s = Inr s'"
  obtains (igual) "s' = s"
  | (mejor) y where "fst e \<notin> visitados s" "map_of (distancias s) (fst e) = Some y"
      "menor (d + snd e) y" "s' = mejora m u (fst e) (d + snd e) s"
  using assms unfolding paso_relajar_def
  by (auto split: if_splits option.splits)

lemma curso_paso:
  assumes "curso g a u d s" and "paso_relajar m u d e s = Inr s'"
  shows "curso g a u d s'"
  using assms(2)
proof (cases rule: paso_relajar_casos)
  case igual
  with assms(1) show ?thesis by simp
next
  case (mejor y)
  with assms(1) show ?thesis by (simp add: curso_mejora)
qed

lemma curso_inv_cola: "curso g a u d s \<Longrightarrow> inv_cola g a s"
  by (simp add: curso_def)

section \<open>Paths\<close>

lemma es_camino_append:
  "es_camino g a (es @ fs) b \<longleftrightarrow> (\<exists>c. es_camino g a es c \<and> es_camino g c fs b)"
  by (induction es arbitrary: a) auto

lemma es_camino_snoc:
  "es_camino g a es u \<Longrightarrow> arista g u v w \<Longrightarrow> es_camino g a (es @ [(u, v, w)]) v"
  by (auto simp: es_camino_append)

lemma peso_camino_simps [simp]:
  "peso_camino [] = 0"
  "peso_camino ((u, v, w) # es) = w + peso_camino es"
  "peso_camino (es @ fs) = peso_camino es + peso_camino fs"
  by (simp_all add: peso_camino_def)

lemma arista_map_of: "map_of g u = Some vs \<Longrightarrow> (v, w) \<in> set vs \<Longrightarrow> arista g u v w"
  by (simp add: arista_def)

lemma map_of_clave: "map_of g u = Some vs \<Longrightarrow> u \<in> fst ` set g"
  by (metis map_of_SomeD fst_conv image_eqI)

section \<open>Predecessors\<close>

lemma llega_mono: "llega V ant v \<Longrightarrow> V \<subseteq> W \<Longrightarrow> llega W ant v"
  by (induction rule: llega.induct) (auto intro: llega.intros)

lemma llega_update:
  "llega V ant v \<Longrightarrow> x \<notin> V \<Longrightarrow> llega V (AList.update x y ant) v"
proof (induction rule: llega.induct)
  case (raiz v)
  then have "map_of (AList.update x y ant) v = Some None"
    by (auto simp: update_conv')
  with raiz show ?case by (auto intro: llega.raiz)
next
  case (enlace v p)
  then have "map_of (AList.update x y ant) v = Some (Some p)"
    by (auto simp: update_conv')
  with enlace show ?case by (auto intro: llega.enlace)
qed

lemma inv_antI:
  assumes "\<And>v p. map_of (anterior s) v = Some (Some p) \<Longrightarrow>
        p \<in> visitados s \<and> p \<in> fst ` set g \<and> v \<noteq> a
        \<and> (\<exists>x. map_of (distancias s) v = Some (Fin x))"
    and "\<And>v. v \<in> visitados s \<Longrightarrow> v \<in> fst ` set g \<Longrightarrow> llega (visitados s) (anterior s) v"
  shows "inv_ant g a s"
  unfolding inv_ant_def using assms by blast

lemma inv_ant_enlace:
  "inv_ant g a s \<Longrightarrow> map_of (anterior s) v = Some (Some p) \<Longrightarrow>
     p \<in> visitados s \<and> p \<in> fst ` set g \<and> v \<noteq> a
     \<and> (\<exists>x. map_of (distancias s) v = Some (Fin x))"
  unfolding inv_ant_def by (elim conjE) blast

lemma inv_ant_llega:
  "inv_ant g a s \<Longrightarrow> v \<in> visitados s \<Longrightarrow> v \<in> fst ` set g \<Longrightarrow>
     llega (visitados s) (anterior s) v"
  unfolding inv_ant_def by (elim conjE) blast

lemma inv_ant_inicial: "inv_ant g a (estado_inicial g a)"
  by (rule inv_antI) (simp_all add: estado_inicial_def map_of_inicial split: if_splits)

lemma inv_ant_descartar: "inv_ant g a s \<Longrightarrow> inv_ant g a (descartar s)"
  by (simp add: inv_ant_def)

lemma inv_ant_asentar:
  assumes "inv_ant g a s" and "inv_cola g a s"
  shows "inv_ant g a (asentar m u d s)"
proof (rule inv_antI)
  show "p \<in> visitados (asentar m u d s) \<and> p \<in> fst ` set g \<and> v \<noteq> a
        \<and> (\<exists>x. map_of (distancias (asentar m u d s)) v = Some (Fin x))"
    if "map_of (anterior (asentar m u d s)) v = Some (Some p)" for v p
    using inv_ant_enlace [OF assms(1), of v p] that by simp
  show "llega (visitados (asentar m u d s)) (anterior (asentar m u d s)) v"
    if "v \<in> visitados (asentar m u d s)" "v \<in> fst ` set g" for v
  proof (cases "v \<in> visitados s")
    case True
    with assms(1) have "llega (visitados s) (anterior s) v"
      using that(2) by (rule inv_ant_llega)
    then have "llega (insert u (visitados s)) (anterior s) v"
      by (rule llega_mono) auto
    then show ?thesis by simp
  next
    case False
    with that have vu: "v = u" by simp
    from that(2) have "v \<in> dom (map_of (anterior s))"
      by (simp add: inv_cola_claves_ant [OF assms(2)])
    then obtain r where r: "map_of (anterior s) v = Some r" by auto
    have "llega (insert u (visitados s)) (anterior s) v"
    proof (cases r)
      case None
      with r vu show ?thesis by (auto intro: llega.raiz)
    next
      case (Some p)
      with r inv_ant_enlace [OF assms(1), of v p]
      have "p \<in> visitados s" "p \<in> fst ` set g" by simp_all
      with assms(1) have "llega (visitados s) (anterior s) p"
        by (rule inv_ant_llega)
      then have "llega (insert u (visitados s)) (anterior s) p"
        by (rule llega_mono) auto
      with r Some vu show ?thesis by (auto intro: llega.enlace)
    qed
    then show ?thesis by simp
  qed
qed

lemma inv_ant_mejora:
  assumes "inv_ant g a s" and "curso g a u d s" and "u \<in> fst ` set g"
    and "v \<notin> visitados s"
  shows "inv_ant g a (mejora m u v x s)"
proof (rule inv_antI)
  from assms(2) have inv: "inv_cola g a s" and u: "u \<in> visitados s"
    by (simp_all add: curso_def)
  from inv u have a: "a \<in> visitados s" by (rule inv_cola_origen_visitado)
  show "p \<in> visitados (mejora m u v x s) \<and> p \<in> fst ` set g \<and> v' \<noteq> a
        \<and> (\<exists>y. map_of (distancias (mejora m u v x s)) v' = Some (Fin y))"
    if "map_of (anterior (mejora m u v x s)) v' = Some (Some p)" for v' p
  proof (cases "v' = v")
    case True
    with that have "p = u" by (simp add: update_conv')
    with True u assms(3,4) a show ?thesis by (auto simp: update_conv')
  next
    case False
    with that have "map_of (anterior s) v' = Some (Some p)" by (simp add: update_conv')
    from inv_ant_enlace [OF assms(1) this] False show ?thesis
      by (simp add: update_conv')
  qed
  show "llega (visitados (mejora m u v x s)) (anterior (mejora m u v x s)) v'"
    if "v' \<in> visitados (mejora m u v x s)" "v' \<in> fst ` set g" for v'
  proof -
    from that have "llega (visitados s) (anterior s) v'"
      using inv_ant_llega [OF assms(1)] by simp
    then have "llega (visitados s) (AList.update v (Some u) (anterior s)) v'"
      using assms(4) by (rule llega_update)
    then show ?thesis by simp
  qed
qed

section \<open>Distances are weights of paths\<close>

lemma inv_alcI:
  assumes "\<And>v x. map_of (distancias s) v = Some (Fin x) \<Longrightarrow>
        \<exists>es. es_camino g a es v \<and> peso_camino es = x"
    and "\<And>x v. (x, v) \<in> set (cola s) \<Longrightarrow> \<exists>es. es_camino g a es v \<and> peso_camino es = x"
  shows "inv_alc g a s"
  unfolding inv_alc_def using assms by blast

lemma inv_alc_dist:
  "inv_alc g a s \<Longrightarrow> map_of (distancias s) v = Some (Fin x) \<Longrightarrow>
     \<exists>es. es_camino g a es v \<and> peso_camino es = x"
  unfolding inv_alc_def by (elim conjE) blast

lemma inv_alc_cola:
  "inv_alc g a s \<Longrightarrow> (x, v) \<in> set (cola s) \<Longrightarrow>
     \<exists>es. es_camino g a es v \<and> peso_camino es = x"
  unfolding inv_alc_def by (elim conjE) blast

lemma inv_alc_inicial: "inv_alc g a (estado_inicial g a)"
proof (rule inv_alcI)
  have vacio: "es_camino g a [] a \<and> peso_camino [] = 0" by simp
  show "\<exists>es. es_camino g a es v \<and> peso_camino es = x"
    if "map_of (distancias (estado_inicial g a)) v = Some (Fin x)" for v x
  proof -
    from that have "v = a \<and> x = 0"
      by (simp add: estado_inicial_def update_conv' map_of_inicial split: if_splits)
    with vacio show ?thesis by blast
  qed
  show "\<exists>es. es_camino g a es v \<and> peso_camino es = x"
    if "(x, v) \<in> set (cola (estado_inicial g a))" for x v
  proof -
    from that have "v = a \<and> x = 0" by (simp add: estado_inicial_def)
    with vacio show ?thesis by blast
  qed
qed

lemma inv_alc_descartar: "inv_alc g a s \<Longrightarrow> inv_alc g a (descartar s)"
  by (rule inv_alcI) (auto dest: inv_alc_dist inv_alc_cola heappop_resto_sub)

lemma inv_alc_asentar: "inv_alc g a s \<Longrightarrow> inv_alc g a (asentar m u d s)"
  by (rule inv_alcI) (auto dest: inv_alc_dist inv_alc_cola heappop_resto_sub)

lemma inv_alc_mejora:
  assumes "inv_alc g a s" and "map_of (distancias s) u = Some (Fin d)"
    and "arista g u v w"
  shows "inv_alc g a (mejora m u v (d + w) s)"
proof -
  from inv_alc_dist [OF assms(1,2)] obtain es where "es_camino g a es u" "peso_camino es = d"
    by blast
  with assms(3) have nuevo: "es_camino g a (es @ [(u, v, w)]) v
      \<and> peso_camino (es @ [(u, v, w)]) = d + w"
    by (simp add: es_camino_snoc)
  show ?thesis
  proof (rule inv_alcI)
    show "\<exists>es. es_camino g a es v' \<and> peso_camino es = x"
      if "map_of (distancias (mejora m u v (d + w) s)) v' = Some (Fin x)" for v' x
    proof (cases "v' = v")
      case True
      with that have "x = d + w" by (simp add: update_conv')
      with True nuevo show ?thesis by blast
    next
      case False
      with that have "map_of (distancias s) v' = Some (Fin x)" by (simp add: update_conv')
      with assms(1) show ?thesis by (rule inv_alc_dist)
    qed
    show "\<exists>es. es_camino g a es v' \<and> peso_camino es = x"
      if "(x, v') \<in> set (cola (mejora m u v (d + w) s))" for x v'
    proof (cases "(x, v') \<in> set (cola s)")
      case True
      with assms(1) show ?thesis by (rule inv_alc_cola)
    next
      case False
      with that have "v' = v \<and> x = d + w" by simp
      with nuevo show ?thesis by blast
    qed
  qed
qed

section \<open>The invariants hold throughout a run\<close>

lemma inv_estr_inicial: "inv_estr g a (estado_inicial g a)"
  by (simp add: inv_estr_def inv_cola_inicial inv_ant_inicial inv_alc_inicial)

lemma inv_estr_descartar:
  assumes "inv_estr g a s" and "cola s \<noteq> []" and "fst (heappop (cola s)) = (d, u)"
    and "u \<in> visitados s"
  shows "inv_estr g a (descartar s)"
  using assms
  by (simp add: inv_estr_def inv_cola_descartar inv_ant_descartar inv_alc_descartar)

lemma curso_estr_asentar:
  assumes "inv_estr g a s" and "cola s \<noteq> []" and "fst (heappop (cola s)) = (d, u)"
    and "u \<notin> visitados s"
  shows "curso_estr g a u d (asentar m u d s)"
  using assms
  by (simp add: inv_estr_def curso_estr_def curso_asentar inv_ant_asentar inv_alc_asentar)

lemma curso_estr_paso:
  assumes "curso_estr g a u d s" and "map_of g u = Some vs" and "e \<in> set vs"
    and "paso_relajar m u d e s = Inr s'"
  shows "curso_estr g a u d s'"
  using assms(4)
proof (cases rule: paso_relajar_casos)
  case igual
  with assms(1) show ?thesis by simp
next
  case (mejor y)
  from assms(1) have c: "curso g a u d s" and ia: "inv_ant g a s" and il: "inv_alc g a s"
    by (simp_all add: curso_estr_def)
  from c have du: "map_of (distancias s) u = Some (Fin d)"
    by (simp add: curso_def)
  have ar: "arista g u (fst e) (snd e)"
    using assms(2,3) by (simp add: arista_map_of)
  have "curso g a u d s'"
    using c mejor by (simp add: curso_mejora)
  moreover have "inv_ant g a s'"
    using ia c map_of_clave [OF assms(2)] mejor(1) unfolding mejor(4)
    by (rule inv_ant_mejora)
  moreover have "inv_alc g a s'"
    using il du ar unfolding mejor(4) by (rule inv_alc_mejora)
  ultimately show ?thesis by (simp add: curso_estr_def)
qed

lemma curso_estr_inv_estr: "curso_estr g a u d s \<Longrightarrow> inv_estr g a s"
  by (simp add: curso_estr_def inv_estr_def curso_def)

lemma bucle_inv_estr:
  "case bucle g fin m (estado_inicial g a) of Inl f \<Rightarrow> True | Inr s \<Rightarrow> inv_estr g a s"
proof (rule bucle_regla [where I = "inv_estr g a" and R = "\<lambda>u d D. curso_estr g a u d"])
  show "inv_estr g a (estado_inicial g a)" by (rule inv_estr_inicial)
qed (simp_all add: inv_estr_descartar curso_estr_asentar curso_estr_paso curso_estr_inv_estr)

lemma dijkstra_inv_estr:
  assumes "snd (dijkstra g a fin m) = Inr (dist, prev)"
  obtains s where "inv_estr g a s" "dist = distancias s" "prev = anterior s"
proof (cases "bucle g fin m (estado_inicial g a)")
  case (Inl f)
  with assms show ?thesis by (simp add: dijkstra_def split: prod.splits)
next
  case (Inr s)
  with bucle_inv_estr [where g = g and fin = fin and m = m and a = a] have "inv_estr g a s" by simp
  moreover from Inr assms have "dist = distancias s" "prev = anterior s"
    by (simp_all add: dijkstra_def)
  ultimately show ?thesis by (rule that)
qed

section \<open>A run on a closed graph returns\<close>

lemma bucle_cerrado:
  assumes "cerrado g" and "a \<in> fst ` set g"
  shows "\<exists>s. bucle g fin m (estado_inicial g a) = Inr s"
proof (rule bucle_regla [where I = "inv_cola g a" and R = "\<lambda>u d D. curso g a u d"
      and Q = "\<lambda>r. \<exists>s. r = Inr s"])
  show "inv_cola g a (estado_inicial g a)" by (rule inv_cola_inicial)
next
  fix u d t
  assume c: "curso g a u d t" and "map_of g u = None"
  then have "u \<notin> fst ` set g" by (simp add: map_of_eq_None_iff)
  moreover from c have "u \<in> dom (map_of (distancias t))" by (auto simp: curso_def)
  then have "u \<in> insert a (fst ` set g)"
    using inv_cola_claves_dist [OF curso_inv_cola [OF c]] by blast
  ultimately show "\<exists>s. Inl (KeyError u, salida t) = Inr s"
    using assms(2) by auto
next
  fix u d D t vs e f
  assume c: "curso g a u d t" and vs: "map_of g u = Some vs" and e: "e \<in> set vs"
    and f: "paso_relajar m u d e t = Inl f"
  from vs have "(u, vs) \<in> set g" by (rule map_of_SomeD)
  with assms(1) e have "fst e \<in> fst ` set g"
    by (cases e) (auto simp: cerrado_def)
  then have "fst e \<in> dom (map_of (distancias t))"
    using inv_cola_claves_dist [OF curso_inv_cola [OF c]] by blast
  with paso_relajar_Inl [OF f] show "\<exists>s. Inl f = Inr s" by auto
qed (simp_all add: inv_cola_descartar curso_asentar curso_paso curso_inv_cola)

section \<open>Following the predecessors\<close>

lemma seguir_None: "seguir ant None c = Some (Inr c)"
  by (subst seguir.simps) simp

lemma seguir_Some:
  "seguir ant (Some n) c =
     (case map_of ant n of
        None \<Rightarrow> Some (Inl (KeyError n))
      | Some sig \<Rightarrow> seguir ant sig (c @ [n]))"
  by (subst seguir.simps) simp

lemma llega_seguir:
  "llega V ant v \<Longrightarrow>
     \<exists>c. seguir ant (Some v) acc = Some (Inr (acc @ v # c))
        \<and> map_of ant (last (v # c)) = Some None"
proof (induction arbitrary: acc rule: llega.induct)
  case (raiz v)
  then have "seguir ant (Some v) acc = Some (Inr (acc @ v # []))"
    by (simp add: seguir_Some seguir_None)
  with raiz show ?case by auto
next
  case (enlace v p)
  from enlace.IH [of "acc @ [v]"] obtain c
    where c: "seguir ant (Some p) (acc @ [v]) = Some (Inr ((acc @ [v]) @ p # c))"
      "map_of ant (last (p # c)) = Some None"
    by blast
  with enlace.hyps have "seguir ant (Some v) acc = Some (Inr (acc @ v # p # c))"
    by (simp add: seguir_Some)
  with c(2) show ?case by auto
qed

lemma inv_estr_seguir:
  assumes "inv_estr g a s" and "t \<in> fst ` set g"
  shows "\<exists>c. seguir (anterior s) (Some t) [] = Some (Inr (t # c))
           \<and> map_of (anterior s) (last (t # c)) = Some None"
proof -
  from assms(1) have ic: "inv_cola g a s" and ia: "inv_ant g a s"
    by (simp_all add: inv_estr_def)
  from assms(2) have "t \<in> dom (map_of (anterior s))"
    by (simp add: inv_cola_claves_ant [OF ic])
  then obtain r where r: "map_of (anterior s) t = Some r" by auto
  show ?thesis
  proof (cases r)
    case None
    with r have "seguir (anterior s) (Some t) [] = Some (Inr (t # []))"
      by (simp add: seguir_Some seguir_None)
    with r None show ?thesis by auto
  next
    case (Some p)
    with r inv_ant_enlace [OF ia, of t p]
    have "p \<in> visitados s" "p \<in> fst ` set g" by simp_all
    with ia have "llega (visitados s) (anterior s) p" by (rule inv_ant_llega)
    from llega_seguir [OF this, of "[t]"] obtain c
      where c: "seguir (anterior s) (Some p) [t] = Some (Inr ([t] @ p # c))"
        "map_of (anterior s) (last (p # c)) = Some None"
      by blast
    with r Some have "seguir (anterior s) (Some t) [] = Some (Inr (t # p # c))"
      by (simp add: seguir_Some)
    with c(2) show ?thesis by auto
  qed
qed

lemma inv_estr_origen_sin_anterior:
  assumes "inv_estr g a s" and "a \<in> fst ` set g"
  shows "map_of (anterior s) a = Some None"
proof -
  from assms(1) have ic: "inv_cola g a s" and ia: "inv_ant g a s"
    by (simp_all add: inv_estr_def)
  from assms(2) have "a \<in> dom (map_of (anterior s))"
    by (simp add: inv_cola_claves_ant [OF ic])
  then obtain r where r: "map_of (anterior s) a = Some r" by auto
  show ?thesis
  proof (cases r)
    case None
    with r show ?thesis by simp
  next
    case (Some p)
    with r inv_ant_enlace [OF ia, of a p] show ?thesis by simp
  qed
qed

lemma inv_estr_inalcanzable:
  assumes "inv_estr g a s" and "t \<in> fst ` set g" and "\<not> alcanzable g a t"
  shows "map_of (distancias s) t = Some Infinito" and "map_of (anterior s) t = Some None"
proof -
  from assms(1) have ic: "inv_cola g a s" and ia: "inv_ant g a s" and il: "inv_alc g a s"
    by (simp_all add: inv_estr_def)
  have sin: "map_of (distancias s) t \<noteq> Some (Fin x)" for x
    using inv_alc_dist [OF il, of t x] assms(3) by (auto simp: alcanzable_def)
  from assms(2) have "t \<in> dom (map_of (distancias s))"
    by (simp add: inv_cola_claves_dist [OF ic])
  then obtain y where y: "map_of (distancias s) t = Some y" by auto
  with sin show "map_of (distancias s) t = Some Infinito"
    by (cases y) auto
  from assms(2) have "t \<in> dom (map_of (anterior s))"
    by (simp add: inv_cola_claves_ant [OF ic])
  then obtain r where r: "map_of (anterior s) t = Some r" by auto
  show "map_of (anterior s) t = Some None"
  proof (cases r)
    case None
    with r show ?thesis by simp
  next
    case (Some p)
    with r inv_ant_enlace [OF ia, of t p] sin show ?thesis by auto
  qed
qed

lemma dijkstra_cerrado:
  assumes "cerrado g" and "a \<in> fst ` set g"
  shows "\<exists>dist prev. snd (dijkstra g a fin m) = Inr (dist, prev)"
proof -
  from bucle_cerrado [OF assms] obtain s
    where "bucle g fin m (estado_inicial g a) = Inr s" by blast
  then show ?thesis by (simp add: dijkstra_def)
qed

text \<open>
  C10. For the predecessors returned by a run of \<open>dijkstra\<close> and every key \<open>t\<close> of the
  graph, the walk of \<open>reconstruir_camino\<close> from \<open>t\<close> ends: it reaches a node whose
  predecessor is \<open>None\<close>, so the predecessors hold no cycle, and \<open>reconstruir_camino\<close>
  returns a list, whatever source it is given. This holds for any weights.
\<close>

theorem reconstruir_termina:
  assumes "snd (dijkstra g a fin m) = Inr (dist, prev)" and "t \<in> fst ` set g"
  shows "\<exists>c. seguir prev (Some t) [] = Some (Inr (t # c))
           \<and> map_of prev (last (t # c)) = Some None
           \<and> (\<exists>r. reconstruir_camino prev x (Some t) = Some (Inr r))"
proof -
  from assms(1) obtain s where s: "inv_estr g a s" "prev = anterior s"
    by (rule dijkstra_inv_estr)
  from inv_estr_seguir [OF s(1) assms(2)] obtain c
    where c: "seguir prev (Some t) [] = Some (Inr (t # c))"
      "map_of prev (last (t # c)) = Some None"
    unfolding s(2) by blast
  then have "\<exists>r. reconstruir_camino prev x (Some t) = Some (Inr r)"
    by (simp add: reconstruir_camino_def Let_def)
  with c show ?thesis by blast
qed

theorem reconstruir_termina_witness:
  "snd (dijkstra grafo_ejemplo ''A'' (Some ''D'') True) =
     Inr ([(''A'', Fin 0), (''B'', Fin 4), (''C'', Fin 2), (''D'', Fin 5)],
          [(''A'', None), (''B'', Some ''A''), (''C'', Some ''A''), (''D'', Some ''C'')])
   \<and> ''D'' \<in> fst ` set grafo_ejemplo
   \<and> (\<exists>c. seguir [(''A'', None), (''B'', Some ''A''), (''C'', Some ''A''),
                   (''D'', Some ''C'')] (Some ''D'') [] = Some (Inr (''D'' # c)))"
proof -
  have r: "snd (dijkstra grafo_ejemplo ''A'' (Some ''D'') True) =
     Inr ([(''A'', Fin 0), (''B'', Fin 4), (''C'', Fin 2), (''D'', Fin 5)],
          [(''A'', None), (''B'', Some ''A''), (''C'', Some ''A''), (''D'', Some ''C'')])"
    by code_simp
  have k: "''D'' \<in> fst ` set grafo_ejemplo"
    by (simp add: grafo_ejemplo_def)
  from reconstruir_termina [OF r k] r k show ?thesis by blast
qed

section \<open>A target that cannot be reached\<close>

lemma alcanzable_mismo: "alcanzable g a a"
  unfolding alcanzable_def by (rule exI [of _ "[]"]) simp

text \<open>
  C7. When the target is a key of the graph and no path leads to it from the source,
  the returned distance of the target is infinity, its predecessor is \<open>None\<close>, and
  \<open>reconstruir_camino\<close> on the returned predecessors gives the empty list. This holds
  for every value of \<open>fin\<close> and of \<open>mostrar_pasos\<close> and for any weights; and the run
  does return when every neighbour and the source are keys of the graph.
\<close>

theorem destino_inalcanzable:
  assumes "t \<in> fst ` set g" and "\<not> alcanzable g a t"
  shows "(cerrado g \<and> a \<in> fst ` set g \<longrightarrow>
            (\<exists>dist prev. snd (dijkstra g a fin m) = Inr (dist, prev)))
       \<and> (\<forall>dist prev. snd (dijkstra g a fin m) = Inr (dist, prev) \<longrightarrow>
            map_of dist t = Some Infinito \<and> map_of prev t = Some None
            \<and> reconstruir_camino prev a (Some t) = Some (Inr []))"
proof (intro conjI allI impI)
  assume "cerrado g \<and> a \<in> fst ` set g"
  then show "\<exists>dist prev. snd (dijkstra g a fin m) = Inr (dist, prev)"
    by (simp add: dijkstra_cerrado)
next
  fix dist prev
  assume r: "snd (dijkstra g a fin m) = Inr (dist, prev)"
  then obtain s where s: "inv_estr g a s" "dist = distancias s" "prev = anterior s"
    by (rule dijkstra_inv_estr)
  from inv_estr_inalcanzable [OF s(1) assms]
  show "map_of dist t = Some Infinito" and p: "map_of prev t = Some None"
    by (simp_all add: s)
  have "t \<noteq> a"
    using assms(2) alcanzable_mismo [of g a] by auto
  moreover have "seguir prev (Some t) [] = Some (Inr [t])"
    using p by (simp add: seguir_Some seguir_None)
  ultimately show "reconstruir_camino prev a (Some t) = Some (Inr [])"
    by (simp add: reconstruir_camino_def)
qed

theorem destino_inalcanzable_witness:
  "''B'' \<in> fst ` set [(''A'', []), (''B'', [])]
   \<and> \<not> alcanzable [(''A'', []), (''B'', [])] ''A'' ''B''
   \<and> snd (dijkstra [(''A'', []), (''B'', [])] ''A'' (Some ''B'') True) =
       Inr ([(''A'', Fin 0), (''B'', Infinito)], [(''A'', None), (''B'', None)])
   \<and> map_of [(''A'', Fin 0), (''B'', Infinito)] ''B'' = Some Infinito
   \<and> reconstruir_camino [(''A'', None), (''B'', None)] ''A'' (Some ''B'') = Some (Inr [])"
proof -
  let ?g = "[(''A'', []), (''B'', [])] :: string grafo"
  have k: "''B'' \<in> fst ` set ?g" by simp
  have n: "\<not> alcanzable ?g ''A'' ''B''"
  proof
    assume "alcanzable ?g ''A'' ''B''"
    then obtain es where es: "es_camino ?g ''A'' es ''B''"
      by (auto simp: alcanzable_def)
    show False
    proof (cases es)
      case Nil
      with es show False by simp
    next
      case (Cons e r)
      with es show False by (cases e) (simp add: arista_def)
    qed
  qed
  have r: "snd (dijkstra ?g ''A'' (Some ''B'') True) =
       Inr ([(''A'', Fin 0), (''B'', Infinito)], [(''A'', None), (''B'', None)])"
    by code_simp
  from destino_inalcanzable [OF k n, of "Some ''B''" True] r k n show ?thesis
    by simp
qed

section \<open>Source equal to target\<close>

text \<open>
  C8, as the code has it. For the predecessors returned by a run of \<open>dijkstra\<close> from a
  source that is a key of the graph, \<open>reconstruir_camino\<close> with that source as both
  ends returns the list holding the source alone.
\<close>

theorem origen_igual_destino:
  assumes "snd (dijkstra g a fin m) = Inr (dist, prev)" and "a \<in> fst ` set g"
  shows "reconstruir_camino prev a (Some a) = Some (Inr [a])"
proof -
  from assms(1) obtain s where s: "inv_estr g a s" "prev = anterior s"
    by (rule dijkstra_inv_estr)
  from inv_estr_origen_sin_anterior [OF s(1) assms(2)]
  have "map_of prev a = Some None" by (simp add: s)
  then have "seguir prev (Some a) [] = Some (Inr [a])"
    by (simp add: seguir_Some seguir_None)
  then show ?thesis
    by (simp add: reconstruir_camino_def)
qed

theorem origen_igual_destino_witness:
  "snd (dijkstra grafo_ejemplo ''A'' (Some ''A'') False) =
     Inr ([(''A'', Fin 0), (''B'', Infinito), (''C'', Infinito), (''D'', Infinito)],
          [(''A'', None), (''B'', None), (''C'', None), (''D'', None)])
   \<and> ''A'' \<in> fst ` set grafo_ejemplo
   \<and> reconstruir_camino [(''A'', None), (''B'', None), (''C'', None), (''D'', None)]
        ''A'' (Some ''A'') = Some (Inr [''A''])"
proof -
  have r: "snd (dijkstra grafo_ejemplo ''A'' (Some ''A'') False) =
     Inr ([(''A'', Fin 0), (''B'', Infinito), (''C'', Infinito), (''D'', Infinito)],
          [(''A'', None), (''B'', None), (''C'', None), (''D'', None)])"
    by code_simp
  have k: "''A'' \<in> fst ` set grafo_ejemplo"
    by (simp add: grafo_ejemplo_def)
  from origen_igual_destino [OF r k] r k show ?thesis by simp
qed

text \<open>
  C8 as stated fails when the source is not a key of the graph: with the source as
  target the run stops at once and returns predecessors that have no entry for it, and
  \<open>reconstruir_camino\<close> raises \<open>KeyError\<close>.
\<close>

theorem origen_sin_clave_contraejemplo:
  "pesos_no_negativos [(''B'', [])]
   \<and> snd (dijkstra [(''B'', [])] ''A'' (Some ''A'') True) =
       Inr ([(''B'', Infinito), (''A'', Fin 0)], [(''B'', None)])
   \<and> reconstruir_camino [(''B'', None)] ''A'' (Some ''A'') = Some (Inl (KeyError ''A''))"
proof -
  have "pesos_no_negativos [(''B'', [])]"
    by (simp add: pesos_no_negativos_def)
  moreover have "snd (dijkstra [(''B'', [])] ''A'' (Some ''A'') True) =
       Inr ([(''B'', Infinito), (''A'', Fin 0)], [(''B'', None)])"
    by code_simp
  moreover have "reconstruir_camino [(''B'', None)] ''A'' (Some ''A'')
      = Some (Inl (KeyError ''A''))"
    by (simp add: reconstruir_camino_def seguir_Some)
  ultimately show ?thesis by simp
qed

section \<open>Nodes that are not keys of the graph\<close>

lemma bucle_primera_vuelta:
  "bucle g fin m (estado_inicial g a) =
     (if fin = Some a then Inr (asentar m a 0 (estado_inicial g a))
      else case map_of g a of
             None \<Rightarrow> Inl (KeyError a, salida (asentar m a 0 (estado_inicial g a)))
           | Some vs \<Rightarrow>
               (case relajar m a 0 vs (asentar m a 0 (estado_inicial g a)) of
                  Inl f \<Rightarrow> Inl f
                | Inr s4 \<Rightarrow> bucle g fin m s4))"
proof -
  have c: "cola (estado_inicial g a) \<noteq> []"
    and p: "fst (heappop (cola (estado_inicial g a))) = (0, a)"
    and v: "a \<notin> visitados (estado_inicial g a)"
    by (simp_all add: estado_inicial_def heappop_def)
  show ?thesis
    by (subst bucle.simps)
      (simp add: c iteracion_nuevo [OF p v] split: option.split sum.split
        del: asentar_campos)
qed






section \<open>Edges out of settled nodes are relaxed\<close>

lemma paso_relajar_tres:
  assumes "paso_relajar m u d e s = Inr s'"
  obtains (visitado) "fst e \<in> visitados s" "s' = s"
  | (peor) y where "fst e \<notin> visitados s" "map_of (distancias s) (fst e) = Some y"
      "\<not> menor (d + snd e) y" "s' = s"
  | (mejor) y where "fst e \<notin> visitados s" "map_of (distancias s) (fst e) = Some y"
      "menor (d + snd e) y" "s' = mejora m u (fst e) (d + snd e) s"
  using assms unfolding paso_relajar_def
  by (auto split: if_splits option.splits)

lemma no_menor: "\<not> menor x y \<Longrightarrow> \<exists>z\<le>x. y = Fin z"
  by (cases y) auto

lemma inv_relI:
  assumes "\<And>v. v \<in> visitados s \<Longrightarrow> \<exists>x. map_of (distancias s) v = Some (Fin x)"
    and "\<And>u v w x. u \<in> visitados s \<Longrightarrow> arista g u v w \<Longrightarrow> v \<notin> visitados s \<Longrightarrow>
         map_of (distancias s) u = Some (Fin x) \<Longrightarrow>
         \<exists>y\<le>x + w. map_of (distancias s) v = Some (Fin y)"
  shows "inv_rel g s"
  unfolding inv_rel_def using assms by blast

lemma inv_rel_finita:
  "inv_rel g s \<Longrightarrow> v \<in> visitados s \<Longrightarrow> \<exists>x. map_of (distancias s) v = Some (Fin x)"
  unfolding inv_rel_def by (elim conjE) blast

lemma inv_rel_arista:
  "inv_rel g s \<Longrightarrow> u \<in> visitados s \<Longrightarrow> arista g u v w \<Longrightarrow> v \<notin> visitados s \<Longrightarrow>
     map_of (distancias s) u = Some (Fin x) \<Longrightarrow>
     \<exists>y\<le>x + w. map_of (distancias s) v = Some (Fin y)"
  unfolding inv_rel_def by (elim conjE) blast

lemma curso_relI:
  assumes "\<And>v. v \<in> visitados s \<Longrightarrow> \<exists>x. map_of (distancias s) v = Some (Fin x)"
    and "\<And>u' v w x. u' \<in> visitados s \<Longrightarrow> arista g u' v w \<Longrightarrow> u' \<noteq> u \<or> (v, w) \<in> D \<Longrightarrow>
         v \<notin> visitados s \<Longrightarrow> map_of (distancias s) u' = Some (Fin x) \<Longrightarrow>
         \<exists>y\<le>x + w. map_of (distancias s) v = Some (Fin y)"
  shows "curso_rel g u D s"
  unfolding curso_rel_def using assms by blast

lemma curso_rel_finita:
  "curso_rel g u D s \<Longrightarrow> v \<in> visitados s \<Longrightarrow> \<exists>x. map_of (distancias s) v = Some (Fin x)"
  unfolding curso_rel_def by (elim conjE) blast

lemma curso_rel_arista:
  "curso_rel g u D s \<Longrightarrow> u' \<in> visitados s \<Longrightarrow> arista g u' v w \<Longrightarrow>
     u' \<noteq> u \<or> (v, w) \<in> D \<Longrightarrow> v \<notin> visitados s \<Longrightarrow>
     map_of (distancias s) u' = Some (Fin x) \<Longrightarrow>
     \<exists>y\<le>x + w. map_of (distancias s) v = Some (Fin y)"
  unfolding curso_rel_def by (elim conjE) blast

lemma inv_rel_inicial: "inv_rel g (estado_inicial g a)"
  by (rule inv_relI) (simp_all add: estado_inicial_def)

lemma inv_rel_descartar: "inv_rel g s \<Longrightarrow> inv_rel g (descartar s)"
  by (simp add: inv_rel_def)

lemma curso_rel_asentar:
  assumes "inv_rel g s" and "map_of (distancias s) u = Some (Fin d)"
  shows "curso_rel g u {} (asentar m u d s)"
proof (rule curso_relI)
  show "\<exists>x. map_of (distancias (asentar m u d s)) v = Some (Fin x)"
    if "v \<in> visitados (asentar m u d s)" for v
    using that assms(2) inv_rel_finita [OF assms(1), of v] by auto
  show "\<exists>y\<le>x + w. map_of (distancias (asentar m u d s)) v = Some (Fin y)"
    if "u' \<in> visitados (asentar m u d s)" "arista g u' v w" "u' \<noteq> u \<or> (v, w) \<in> {}"
      "v \<notin> visitados (asentar m u d s)"
      "map_of (distancias (asentar m u d s)) u' = Some (Fin x)" for u' v w x
  proof -
    from that have "u' \<in> visitados s" "v \<notin> visitados s"
      "map_of (distancias s) u' = Some (Fin x)"
      by simp_all
    from inv_rel_arista [OF assms(1) this(1) that(2) this(2,3)] show ?thesis
      by simp
  qed
qed

lemma curso_rel_paso:
  assumes "curso_rel g u D s" and "u \<in> visitados s"
    and "map_of (distancias s) u = Some (Fin d)"
    and "paso_relajar m u d e s = Inr s'"
  shows "curso_rel g u (insert e D) s'"
  using assms(4)
proof (cases rule: paso_relajar_tres)
  case visitado
  show ?thesis unfolding visitado(2)
  proof (rule curso_relI)
    show "\<exists>x. map_of (distancias s) v = Some (Fin x)" if "v \<in> visitados s" for v
      using assms(1) that by (rule curso_rel_finita)
    show "\<exists>y\<le>x + w. map_of (distancias s) v = Some (Fin y)"
      if "u' \<in> visitados s" "arista g u' v w" "u' \<noteq> u \<or> (v, w) \<in> insert e D"
        "v \<notin> visitados s" "map_of (distancias s) u' = Some (Fin x)" for u' v w x
    proof -
      from that(3,4) visitado(1) have "u' \<noteq> u \<or> (v, w) \<in> D" by auto
      from curso_rel_arista [OF assms(1) that(1,2) this that(4,5)] show ?thesis .
    qed
  qed
next
  case (peor y)
  from no_menor [OF peor(3)] obtain z where z: "z \<le> d + snd e" "y = Fin z" by blast
  show ?thesis unfolding peor(4)
  proof (rule curso_relI)
    show "\<exists>x. map_of (distancias s) v = Some (Fin x)" if "v \<in> visitados s" for v
      using assms(1) that by (rule curso_rel_finita)
    show "\<exists>y\<le>x + w. map_of (distancias s) v = Some (Fin y)"
      if "u' \<in> visitados s" "arista g u' v w" "u' \<noteq> u \<or> (v, w) \<in> insert e D"
        "v \<notin> visitados s" "map_of (distancias s) u' = Some (Fin x)" for u' v w x
    proof (cases "u' \<noteq> u \<or> (v, w) \<in> D")
      case True
      from curso_rel_arista [OF assms(1) that(1,2) True that(4,5)] show ?thesis .
    next
      case False
      with that(3) have "u' = u" "e = (v, w)" by auto
      with that(5) assms(3) peor(2) z show ?thesis by auto
    qed
  qed
next
  case (mejor y)
  show ?thesis unfolding mejor(4)
  proof (rule curso_relI)
    show "\<exists>x. map_of (distancias (mejora m u (fst e) (d + snd e) s)) v = Some (Fin x)"
      if "v \<in> visitados (mejora m u (fst e) (d + snd e) s)" for v
      using curso_rel_finita [OF assms(1), of v] that by (auto simp: update_conv')
    show "\<exists>y\<le>x + w. map_of (distancias (mejora m u (fst e) (d + snd e) s)) v = Some (Fin y)"
      if "u' \<in> visitados (mejora m u (fst e) (d + snd e) s)" "arista g u' v w"
        "u' \<noteq> u \<or> (v, w) \<in> insert e D"
        "v \<notin> visitados (mejora m u (fst e) (d + snd e) s)"
        "map_of (distancias (mejora m u (fst e) (d + snd e) s)) u' = Some (Fin x)"
      for u' v w x
    proof -
      from that(1) mejor(1) have ne: "u' \<noteq> fst e" by auto
      from that have u': "u' \<in> visitados s" and v: "v \<notin> visitados s"
        and x: "map_of (distancias s) u' = Some (Fin x)"
        using ne by (simp_all add: update_conv')
      show ?thesis
      proof (cases "u' \<noteq> u \<or> (v, w) \<in> D")
        case True
        from curso_rel_arista [OF assms(1) u' that(2) True v x]
        obtain y' where y': "y' \<le> x + w" "map_of (distancias s) v = Some (Fin y')"
          by blast
        show ?thesis
        proof (cases "v = fst e")
          case True
          with y' mejor(2) have "y = Fin y'" by simp
          with mejor(3) have "d + snd e < y'" by simp
          with y'(1) True show ?thesis by (simp add: update_conv')
        next
          case False
          with y' show ?thesis by (simp add: update_conv')
        qed
      next
        case False
        with that(3) have "u' = u" "e = (v, w)" by auto
        with x assms(3) show ?thesis by (simp add: update_conv')
      qed
    qed
  qed
qed

lemma curso_rel_cierra:
  assumes "curso_rel g u (set vs) s" and "map_of g u = Some vs"
  shows "inv_rel g s"
proof (rule inv_relI)
  show "\<exists>x. map_of (distancias s) v = Some (Fin x)" if "v \<in> visitados s" for v
    using assms(1) that by (rule curso_rel_finita)
  show "\<exists>y\<le>x + w. map_of (distancias s) v = Some (Fin y)"
    if "u' \<in> visitados s" "arista g u' v w" "v \<notin> visitados s"
      "map_of (distancias s) u' = Some (Fin x)" for u' v w x
  proof -
    have "u' \<noteq> u \<or> (v, w) \<in> set vs"
      using that(2) assms(2) by (auto simp: arista_def)
    from curso_rel_arista [OF assms(1) that(1,2) this that(3,4)] show ?thesis .
  qed
qed

section \<open>The distance of a settled node is minimal\<close>

lemma arista_no_negativa: "pesos_no_negativos g \<Longrightarrow> arista g u v w \<Longrightarrow> 0 \<le> w"
  unfolding pesos_no_negativos_def arista_def
  by (auto split: option.splits dest!: map_of_SomeD)

lemma camino_no_negativo:
  "pesos_no_negativos g \<Longrightarrow> es_camino g a es b \<Longrightarrow> 0 \<le> peso_camino es"
proof (induction es arbitrary: a)
  case Nil
  then show ?case by simp
next
  case (Cons e es)
  obtain u v w where e: "e = (u, v, w)" by (cases e)
  with Cons.prems have "arista g u v w" "es_camino g v es b" by auto
  with Cons.prems(1) Cons.IH [of v] have "0 \<le> w" "0 \<le> peso_camino es"
    by (simp_all add: arista_no_negativa)
  with e show ?case by simp
qed

lemma camino_cruza:
  assumes "es_camino g a es b" and "a \<in> V" and "b \<notin> V"
  shows "\<exists>es1 x y w es2. es = es1 @ (x, y, w) # es2 \<and> es_camino g a es1 x \<and> x \<in> V
           \<and> y \<notin> V \<and> arista g x y w \<and> es_camino g y es2 b"
  using assms
proof (induction es arbitrary: a)
  case Nil
  then show ?case by simp
next
  case (Cons e es)
  obtain u v w where e: "e = (u, v, w)" by (cases e)
  with Cons.prems have ua: "u = a" and ar: "arista g a v w" and r: "es_camino g v es b"
    by auto
  show ?case
  proof (cases "v \<in> V")
    case True
    from Cons.IH [OF r True Cons.prems(3)] obtain es1 x y w' es2
      where h: "es = es1 @ (x, y, w') # es2" "es_camino g v es1 x" "x \<in> V" "y \<notin> V"
        "arista g x y w'" "es_camino g y es2 b"
      by blast
    have "e # es = ((a, v, w) # es1) @ (x, y, w') # es2"
      using h(1) e ua by simp
    moreover have "es_camino g a ((a, v, w) # es1) x"
      using ar h(2) by simp
    ultimately show ?thesis using h(3-6) by blast
  next
    case False
    have "e # es = [] @ (a, v, w) # es" using e ua by simp
    moreover have "es_camino g a [] a" by simp
    ultimately show ?thesis using Cons.prems(2) False ar r by blast
  qed
qed

lemma inv_min_inicial: "inv_min g a (estado_inicial g a)"
  by (simp add: inv_min_def estado_inicial_def)

lemma inv_min_descartar: "inv_min g a s \<Longrightarrow> inv_min g a (descartar s)"
  by (simp add: inv_min_def)

lemma inv_min_paso:
  assumes "inv_min g a s" and "paso_relajar m u d e s = Inr s'"
  shows "inv_min g a s'"
  using assms(2)
proof (cases rule: paso_relajar_casos)
  case igual
  with assms(1) show ?thesis by simp
next
  case (mejor y)
  have "x \<le> peso_camino es"
    if "v \<in> visitados s" "map_of (distancias s') v = Some (Fin x)" "es_camino g a es v"
    for v x es
  proof -
    from that(1) mejor(1) have "v \<noteq> fst e" by auto
    with that(2) have "map_of (distancias s) v = Some (Fin x)"
      by (simp add: mejor(4) update_conv')
    with assms(1) that(1,3) show ?thesis
      unfolding inv_min_def by blast
  qed
  then show ?thesis
    unfolding inv_min_def by (simp add: mejor(4))
qed

lemma popped_minimo:
  assumes nn: "pesos_no_negativos g"
    and ic: "inv_cola g a s" and ir: "inv_rel g s" and im: "inv_min g a s"
    and ne: "cola s \<noteq> []" and pop: "fst (heappop (cola s)) = (d, u)"
    and nv: "u \<notin> visitados s" and es: "es_camino g a es u"
  shows "d \<le> peso_camino es"
proof (cases "a \<in> visitados s")
  case False
  with inv_cola_primero [OF ic] have "cola s = [(0, a)]" by simp
  with pop have "d = 0" by (simp add: heappop_def)
  with camino_no_negativo [OF nn es] show ?thesis by simp
next
  case True
  from camino_cruza [OF es True nv] obtain es1 x y w es2
    where h: "es = es1 @ (x, y, w) # es2" "es_camino g a es1 x" "x \<in> visitados s"
      "y \<notin> visitados s" "arista g x y w" "es_camino g y es2 u"
    by blast
  from inv_rel_finita [OF ir h(3)] obtain dx where dx: "map_of (distancias s) x = Some (Fin dx)"
    by blast
  with im h(2,3) have "dx \<le> peso_camino es1"
    unfolding inv_min_def by blast
  moreover from inv_rel_arista [OF ir h(3,5,4) dx] obtain dy
    where dy: "dy \<le> dx + w" "map_of (distancias s) y = Some (Fin dy)"
    by blast
  moreover have "d \<le> dy"
  proof -
    from ic h(4) dy(2) have "(dy, y) \<in> set (cola s)" by (rule inv_cola_pendiente)
    then have "(d, u) \<le> (dy, y)"
      using heappop_minimo [of "(dy, y)" "cola s"] pop by simp
    then show ?thesis by (rule par_menor_fst)
  qed
  moreover have "0 \<le> peso_camino es2"
    using nn h(6) by (rule camino_no_negativo)
  ultimately show ?thesis
    using h(1) by simp
qed

lemma inv_min_asentar:
  assumes "pesos_no_negativos g"
    and "inv_cola g a s" and "inv_rel g s" and "inv_min g a s"
    and "cola s \<noteq> []" and "fst (heappop (cola s)) = (d, u)" and "u \<notin> visitados s"
  shows "inv_min g a (asentar m u d s)"
proof -
  have du: "map_of (distancias s) u = Some (Fin d)"
    using assms(2,5,6,7) by (rule inv_cola_dist_popped)
  have "x \<le> peso_camino es"
    if "v \<in> insert u (visitados s)" "map_of (distancias s) v = Some (Fin x)"
      "es_camino g a es v" for v x es
  proof (cases "v = u")
    case True
    with that(2) du have "x = d" by simp
    moreover have "d \<le> peso_camino es"
      using assms that(3) unfolding True by (rule popped_minimo)
    ultimately show ?thesis by simp
  next
    case False
    with that(1) have "v \<in> visitados s" by simp
    with assms(4) that(2,3) show ?thesis
      unfolding inv_min_def by blast
  qed
  then show ?thesis
    unfolding inv_min_def by simp
qed

section \<open>A run with no target settles every reachable node\<close>

lemma inv_corr_inicial: "inv_corr g a (estado_inicial g a)"
  by (simp add: inv_corr_def inv_estr_inicial inv_rel_inicial inv_min_inicial)

lemma inv_corr_descartar:
  assumes "inv_corr g a s" and "cola s \<noteq> []" and "fst (heappop (cola s)) = (d, u)"
    and "u \<in> visitados s"
  shows "inv_corr g a (descartar s)"
  using assms
  by (simp add: inv_corr_def inv_estr_descartar inv_rel_descartar inv_min_descartar)

lemma curso_corr_asentar:
  assumes "inv_corr g a s" and "cola s \<noteq> []" and "fst (heappop (cola s)) = (d, u)"
    and "u \<notin> visitados s"
  shows "curso_corr g a u d {} (asentar m u d s)"
proof -
  from assms(1) have ie: "inv_estr g a s" and ir: "inv_rel g s"
    and im: "pesos_no_negativos g \<longrightarrow> inv_min g a s"
    by (simp_all add: inv_corr_def)
  from ie have ic: "inv_cola g a s" by (simp add: inv_estr_def)
  have du: "map_of (distancias s) u = Some (Fin d)"
    using ic assms(2,3,4) by (rule inv_cola_dist_popped)
  have "curso_estr g a u d (asentar m u d s)"
    using ie assms(2,3,4) by (rule curso_estr_asentar)
  moreover have "curso_rel g u {} (asentar m u d s)"
    using ir du by (rule curso_rel_asentar)
  moreover have "inv_min g a (asentar m u d s)" if "pesos_no_negativos g"
    using that ic ir im assms(2,3,4) by (simp add: inv_min_asentar)
  ultimately show ?thesis by (simp add: curso_corr_def)
qed

lemma curso_corr_paso:
  assumes "curso_corr g a u d D s" and "map_of g u = Some vs" and "e \<in> set vs"
    and "paso_relajar m u d e s = Inr s'"
  shows "curso_corr g a u d (insert e D) s'"
proof -
  from assms(1) have ce: "curso_estr g a u d s" and cr: "curso_rel g u D s"
    and im: "pesos_no_negativos g \<longrightarrow> inv_min g a s"
    by (simp_all add: curso_corr_def)
  from ce have u: "u \<in> visitados s" and du: "map_of (distancias s) u = Some (Fin d)"
    by (simp_all add: curso_estr_def curso_def)
  have "curso_estr g a u d s'"
    using ce assms(2,3,4) by (rule curso_estr_paso)
  moreover have "curso_rel g u (insert e D) s'"
    using cr u du assms(4) by (rule curso_rel_paso)
  moreover have "inv_min g a s'" if "pesos_no_negativos g"
    using that im assms(4) by (simp add: inv_min_paso)
  ultimately show ?thesis by (simp add: curso_corr_def)
qed

lemma curso_corr_cierra:
  assumes "curso_corr g a u d (set vs) s" and "map_of g u = Some vs"
  shows "inv_corr g a s"
proof -
  from assms(1) have ce: "curso_estr g a u d s" and cr: "curso_rel g u (set vs) s"
    and im: "pesos_no_negativos g \<longrightarrow> inv_min g a s"
    by (simp_all add: curso_corr_def)
  from ce have "inv_estr g a s" by (rule curso_estr_inv_estr)
  moreover from cr assms(2) have "inv_rel g s" by (rule curso_rel_cierra)
  ultimately show ?thesis using im by (simp add: inv_corr_def)
qed

lemma bucle_inv_corr:
  "case bucle g None m (estado_inicial g a) of
     Inl f \<Rightarrow> True
   | Inr s \<Rightarrow> inv_corr g a s \<and> cola s = []"
proof (rule bucle_regla [where I = "inv_corr g a" and R = "curso_corr g a"])
  show "inv_corr g a (estado_inicial g a)" by (rule inv_corr_inicial)
qed (simp_all add: inv_corr_descartar curso_corr_asentar curso_corr_paso curso_corr_cierra)

lemma dijkstra_inv_corr:
  assumes "snd (dijkstra g a None m) = Inr (dist, prev)"
  obtains s where "inv_corr g a s" "cola s = []" "dist = distancias s" "prev = anterior s"
proof (cases "bucle g None m (estado_inicial g a)")
  case (Inl f)
  with assms show ?thesis by (simp add: dijkstra_def split: prod.splits)
next
  case (Inr s)
  with bucle_inv_corr [where g = g and m = m and a = a]
  have "inv_corr g a s" "cola s = []" by simp_all
  moreover from Inr assms have "dist = distancias s" "prev = anterior s"
    by (simp_all add: dijkstra_def)
  ultimately show ?thesis by (rule that)
qed

lemma alcanzable_visitado:
  assumes "inv_corr g a s" and "cola s = []" and "alcanzable g a n"
  shows "n \<in> visitados s"
proof (rule ccontr)
  assume n: "n \<notin> visitados s"
  from assms(1) have ic: "inv_cola g a s" and ir: "inv_rel g s"
    by (simp_all add: inv_corr_def inv_estr_def)
  from inv_cola_primero [OF ic] assms(2) have a: "a \<in> visitados s" by auto
  from assms(3) obtain es where "es_camino g a es n" by (auto simp: alcanzable_def)
  from camino_cruza [OF this a n] obtain x y w
    where h: "x \<in> visitados s" "y \<notin> visitados s" "arista g x y w"
    by blast
  from inv_rel_finita [OF ir h(1)] obtain dx where dx: "map_of (distancias s) x = Some (Fin dx)"
    by blast
  from inv_rel_arista [OF ir h(1,3,2) dx] obtain dy
    where "map_of (distancias s) y = Some (Fin dy)" by blast
  with ic h(2) have "(dy, y) \<in> set (cola s)" by (rule inv_cola_pendiente)
  with assms(2) show False by simp
qed

lemma dijkstra_alcanzable_clave:
  assumes "snd (dijkstra g a None m) = Inr (dist, prev)" and "alcanzable g a n"
  shows "n \<in> fst ` set g"
proof -
  from assms(1) obtain s where s: "inv_corr g a s" "cola s = []"
    by (rule dijkstra_inv_corr)
  from s(1) have ic: "inv_cola g a s" and ir: "inv_rel g s"
    by (simp_all add: inv_corr_def inv_estr_def)
  have a: "a \<in> fst ` set g"
  proof (rule ccontr)
    assume "a \<notin> fst ` set g"
    then have "map_of g a = None" by (simp add: map_of_eq_None_iff)
    with assms(1) show False
      by (simp add: dijkstra_def bucle_primera_vuelta)
  qed
  from alcanzable_visitado [OF s assms(2)] have "n \<in> visitados s" .
  from inv_rel_finita [OF ir this] have "n \<in> dom (map_of (distancias s))" by auto
  with inv_cola_claves_dist [OF ic] a show ?thesis by auto
qed

text \<open>
  C1. On a graph whose weights are all non-negative, the distance map returned by
  \<open>dijkstra(grafo, inicio)\<close>, run with no target, gives every node \<open>n\<close> that a path
  reaches from the source the least total weight of the paths from the source to \<open>n\<close>:
  some path has that weight and no path has less. The run returns when every
  neighbour and the source are keys of the graph.
\<close>

theorem dijkstra_distancias_minimas:
  assumes "pesos_no_negativos g" and "alcanzable g a n"
  shows "(cerrado g \<and> a \<in> fst ` set g \<longrightarrow>
            (\<exists>dist prev. snd (dijkstra g a None m) = Inr (dist, prev)))
       \<and> (\<forall>dist prev. snd (dijkstra g a None m) = Inr (dist, prev) \<longrightarrow>
            (\<exists>d. map_of dist n = Some (Fin d) \<and> distancia_minima g a n d))"
proof (intro conjI allI impI)
  assume "cerrado g \<and> a \<in> fst ` set g"
  then show "\<exists>dist prev. snd (dijkstra g a None m) = Inr (dist, prev)"
    by (simp add: dijkstra_cerrado)
next
  fix dist prev
  assume "snd (dijkstra g a None m) = Inr (dist, prev)"
  then obtain s where s: "inv_corr g a s" "cola s = []" and dist: "dist = distancias s"
    by (rule dijkstra_inv_corr)
  from s(1) assms(1) have il: "inv_alc g a s" and ir: "inv_rel g s" and im: "inv_min g a s"
    by (simp_all add: inv_corr_def inv_estr_def)
  from alcanzable_visitado [OF s assms(2)] have n: "n \<in> visitados s" .
  from inv_rel_finita [OF ir n] obtain d where d: "map_of (distancias s) n = Some (Fin d)"
    by blast
  have "\<exists>es. es_camino g a es n \<and> peso_camino es = d"
    using il d by (rule inv_alc_dist)
  moreover have "\<forall>es. es_camino g a es n \<longrightarrow> d \<le> peso_camino es"
    using im n d unfolding inv_min_def by blast
  ultimately have "distancia_minima g a n d"
    by (simp add: distancia_minima_def)
  with d dist show "\<exists>d. map_of dist n = Some (Fin d) \<and> distancia_minima g a n d"
    by blast
qed

theorem dijkstra_distancias_minimas_witness:
  "pesos_no_negativos grafo_ejemplo
   \<and> alcanzable grafo_ejemplo ''A'' ''D''
   \<and> snd (dijkstra grafo_ejemplo ''A'' None True) =
       Inr ([(''A'', Fin 0), (''B'', Fin 4), (''C'', Fin 2), (''D'', Fin 5)],
            [(''A'', None), (''B'', Some ''A''), (''C'', Some ''A''), (''D'', Some ''C'')])
   \<and> distancia_minima grafo_ejemplo ''A'' ''D'' 5"
proof -
  have nn: "pesos_no_negativos grafo_ejemplo"
    by (simp add: pesos_no_negativos_def grafo_ejemplo_def)
  have al: "alcanzable grafo_ejemplo ''A'' ''D''"
    unfolding alcanzable_def
    by (rule exI [where x = "[(''A'', ''C'', 2), (''C'', ''D'', 3)]"])
      (simp add: arista_def grafo_ejemplo_def)
  have r: "snd (dijkstra grafo_ejemplo ''A'' None True) =
       Inr ([(''A'', Fin 0), (''B'', Fin 4), (''C'', Fin 2), (''D'', Fin 5)],
            [(''A'', None), (''B'', Some ''A''), (''C'', Some ''A''), (''D'', Some ''C'')])"
    by code_simp
  from dijkstra_distancias_minimas [OF nn al, of True] r
  have "distancia_minima grafo_ejemplo ''A'' ''D'' 5" by simp
  with nn al r show ?thesis by simp
qed

text \<open>
  C4, as the code has it. \<open>dijkstra\<close> completes, for every target and with tracing on or
  off, when the source and every node named as a neighbour are keys of the graph.
  Relaxing an edge into a node that is not yet visited and has no entry in \<open>distancias\<close>
  raises \<open>KeyError\<close> for that node; so a run with no target completes only if every node
  that a path reaches from the source is a key.
\<close>

theorem dijkstra_completa:
  "(cerrado g \<and> a \<in> fst ` set g \<longrightarrow>
      (\<exists>dist prev. snd (dijkstra g a fin m) = Inr (dist, prev)))
   \<and> (v \<notin> visitados s \<and> map_of (distancias s) v = None \<longrightarrow>
        relajar m u d ((v, w) # vs) s = Inl (KeyError v, salida s))
   \<and> (alcanzable g a n \<and> n \<notin> fst ` set g \<longrightarrow>
        (\<exists>e. snd (dijkstra g a None m) = Inl e))"
proof (intro conjI impI)
  assume "cerrado g \<and> a \<in> fst ` set g"
  then show "\<exists>dist prev. snd (dijkstra g a fin m) = Inr (dist, prev)"
    by (simp add: dijkstra_cerrado)
next
  assume "v \<notin> visitados s \<and> map_of (distancias s) v = None"
  then show "relajar m u d ((v, w) # vs) s = Inl (KeyError v, salida s)"
    by simp
next
  assume h: "alcanzable g a n \<and> n \<notin> fst ` set g"
  show "\<exists>e. snd (dijkstra g a None m) = Inl e"
  proof (cases "snd (dijkstra g a None m)")
    case (Inl e)
    then show ?thesis by blast
  next
    case (Inr r)
    obtain dist prev where "r = (dist, prev)" by (cases r)
    with Inr h dijkstra_alcanzable_clave [of g a m dist prev n] show ?thesis
      by simp
  qed
qed

theorem dijkstra_completa_witness:
  "cerrado grafo_ejemplo \<and> ''A'' \<in> fst ` set grafo_ejemplo
   \<and> (\<exists>dist prev. snd (dijkstra grafo_ejemplo ''A'' (Some ''D'') True) = Inr (dist, prev))
   \<and> alcanzable [(''A'', [(''B'', 1)])] ''A'' ''B''
   \<and> ''B'' \<notin> fst ` set [(''A'', [(''B'', 1 :: int)])]
   \<and> (\<exists>e. snd (dijkstra [(''A'', [(''B'', 1)])] ''A'' None False) = Inl e)"
proof -
  have c: "cerrado grafo_ejemplo"
    by (simp add: cerrado_def grafo_ejemplo_def)
  have k: "''A'' \<in> fst ` set grafo_ejemplo"
    by (simp add: grafo_ejemplo_def)
  have al: "alcanzable [(''A'', [(''B'', 1)])] ''A'' ''B''"
    unfolding alcanzable_def
    by (rule exI [where x = "[(''A'', ''B'', 1)]"]) (simp add: arista_def)
  have nk: "''B'' \<notin> fst ` set [(''A'', [(''B'', 1 :: int)])]"
    by simp
  have "\<exists>dist prev. snd (dijkstra grafo_ejemplo ''A'' (Some ''D'') True) = Inr (dist, prev)"
    using dijkstra_completa [of grafo_ejemplo "''A''" "Some ''D''" True] c k by blast
  moreover have "\<exists>e. snd (dijkstra [(''A'', [(''B'', 1)])] ''A'' None False) = Inl e"
    using dijkstra_completa [of "[(''A'', [(''B'', 1)])]" "''A''" _ False _ _ _ _ _ _ "''B''"]
      al nk by blast
  ultimately show ?thesis using c k al nk by simp
qed

text \<open>
  C4 as stated fails: B is named as a neighbour of A and is not a key of the graph, and
  the run raises \<open>KeyError\<close> when it relaxes the edge from A to B.
\<close>

theorem vecino_sin_clave_contraejemplo:
  "dijkstra [(''A'', [(''B'', 1)])] ''A'' None True =
     ([Paso 0 ''A'' 0 [(''A'', Fin 0)]], Inl (KeyError ''B''))"
  by code_simp

section \<open>The printed trace\<close>

lemma asentados_append: "asentados (xs @ ys) = asentados xs @ asentados ys"
  by (induction xs rule: asentados.induct) simp_all

lemma numeros_append: "numeros (xs @ ys) = numeros xs @ numeros ys"
  by (induction xs rule: numeros.induct) simp_all

lemma instantaneas_append:
  "instantaneas K (xs @ ys) \<longleftrightarrow> instantaneas K xs \<and> instantaneas K ys"
  by (induction K xs rule: instantaneas.induct) auto

lemma fijo_tras_append:
  "fijo_tras n d (xs @ ys) \<longleftrightarrow> fijo_tras n d xs \<and> fijo_tras n d ys"
  by (induction n d xs rule: fijo_tras.induct) auto

lemma traza_fija_append:
  "traza_fija (xs @ ys) \<longleftrightarrow>
     traza_fija xs \<and> traza_fija ys \<and> (\<forall>n d. (n, d) \<in> set (asentados xs) \<longrightarrow> fijo_tras n d ys)"
  by (induction xs rule: traza_fija.induct) (auto simp: fijo_tras_append)

lemma inv_traza_asentado:
  "inv_traza g a m s \<Longrightarrow> (n, x) \<in> set (asentados (salida s)) \<Longrightarrow>
     n \<in> visitados s \<and> map_of (distancias s) n = Some (Fin x)"
  unfolding inv_traza_def by (elim conjE) blast

lemma inv_traza_fija: "inv_traza g a m s \<Longrightarrow> traza_fija (salida s)"
  unfolding inv_traza_def by (elim conjE)

lemma inv_traza_distinct: "inv_traza g a m s \<Longrightarrow> distinct (map fst (asentados (salida s)))"
  unfolding inv_traza_def by (elim conjE)

lemma inv_traza_instantaneas:
  "inv_traza g a m s \<Longrightarrow> instantaneas (insert a (fst ` set g)) (salida s)"
  unfolding inv_traza_def by (elim conjE)

lemma inv_traza_con:
  "inv_traza g a True s \<Longrightarrow>
     fst ` set (asentados (salida s)) = visitados s \<and> numeros (salida s) = [0..<paso s]"
  unfolding inv_traza_def by (elim conjE) simp

lemma inv_traza_sin: "inv_traza g a False s \<Longrightarrow> salida s = []"
  unfolding inv_traza_def by (elim conjE) simp

lemma inv_trazaI:
  assumes "\<And>n x. (n, x) \<in> set (asentados (salida s)) \<Longrightarrow>
        n \<in> visitados s \<and> map_of (distancias s) n = Some (Fin x)"
    and "traza_fija (salida s)"
    and "distinct (map fst (asentados (salida s)))"
    and "instantaneas (insert a (fst ` set g)) (salida s)"
    and "m \<Longrightarrow> fst ` set (asentados (salida s)) = visitados s"
    and "m \<Longrightarrow> numeros (salida s) = [0..<paso s]"
    and "\<not> m \<Longrightarrow> salida s = []"
  shows "inv_traza g a m s"
  unfolding inv_traza_def using assms by (cases m) auto

lemma inv_traza_inicial: "inv_traza g a m (estado_inicial g a)"
  by (rule inv_trazaI) (simp_all add: estado_inicial_def)

lemma inv_traza_descartar: "inv_traza g a m s \<Longrightarrow> inv_traza g a m (descartar s)"
  by (simp add: inv_traza_def)

lemma inv_traza_asentar_sin:
  assumes "inv_traza g a False s"
  shows "inv_traza g a False (asentar False u d s)"
  using inv_traza_sin [OF assms]
  by (intro inv_trazaI) simp_all

lemma inv_traza_asentar_con:
  assumes it: "inv_traza g a True s" and ic: "inv_cola g a s"
    and du: "map_of (distancias s) u = Some (Fin d)" and nv: "u \<notin> visitados s"
  shows "inv_traza g a True (asentar True u d s)"
proof (rule inv_trazaI)
  have sal: "salida (asentar True u d s) = salida s @ [Paso (paso s) u d (distancias s)]"
    by simp
  have as: "asentados (salida (asentar True u d s)) = asentados (salida s) @ [(u, d)]"
    by (simp add: asentados_append)
  note con = inv_traza_con [OF it]
  show "n \<in> visitados (asentar True u d s)
      \<and> map_of (distancias (asentar True u d s)) n = Some (Fin x)"
    if "(n, x) \<in> set (asentados (salida (asentar True u d s)))" for n x
  proof (cases "(n, x) = (u, d)")
    case True
    with du show ?thesis by simp
  next
    case False
    with that have "(n, x) \<in> set (asentados (salida s))"
      unfolding as by auto
    from inv_traza_asentado [OF it this] show ?thesis by simp
  qed
  have "fijo_tras n x [Paso (paso s) u d (distancias s)]"
    if "(n, x) \<in> set (asentados (salida s))" for n x
    using inv_traza_asentado [OF it that] by simp
  then show "traza_fija (salida (asentar True u d s))"
    unfolding sal using inv_traza_fija [OF it] by (simp add: traza_fija_append)
  have "u \<notin> fst ` set (asentados (salida s))"
    using con nv by simp
  then show "distinct (map fst (asentados (salida (asentar True u d s))))"
    unfolding as using inv_traza_distinct [OF it] by simp
  have "fst ` set (distancias s) = insert a (fst ` set g)"
    using inv_cola_claves_dist [OF ic] by (simp add: dom_map_of_conv_image_fst)
  then show "instantaneas (insert a (fst ` set g)) (salida (asentar True u d s))"
    unfolding sal using inv_traza_instantaneas [OF it] du
    by (simp add: instantaneas_append)
  show "fst ` set (asentados (salida (asentar True u d s))) = visitados (asentar True u d s)"
    unfolding as using con by simp
  show "numeros (salida (asentar True u d s)) = [0..<paso (asentar True u d s)]"
    unfolding sal using con by (simp add: numeros_append)
  show "salida (asentar True u d s) = []" if "\<not> True"
    using that by simp
qed

lemma inv_traza_asentar:
  assumes "inv_traza g a m s" and "inv_cola g a s"
    and "map_of (distancias s) u = Some (Fin d)" and "u \<notin> visitados s"
  shows "inv_traza g a m (asentar m u d s)"
  using assms by (cases m) (simp_all add: inv_traza_asentar_con inv_traza_asentar_sin)

lemma inv_traza_mejora:
  assumes it: "inv_traza g a m s" and nv: "v \<notin> visitados s"
  shows "inv_traza g a m (mejora m u v x s)"
proof (rule inv_trazaI)
  have as: "asentados (salida (mejora m u v x s)) = asentados (salida s)"
    by (simp add: asentados_append)
  have nu: "numeros (salida (mejora m u v x s)) = numeros (salida s)"
    by (simp add: numeros_append)
  show "n \<in> visitados (mejora m u v x s)
      \<and> map_of (distancias (mejora m u v x s)) n = Some (Fin y)"
    if "(n, y) \<in> set (asentados (salida (mejora m u v x s)))" for n y
  proof -
    from that have "(n, y) \<in> set (asentados (salida s))" unfolding as .
    from inv_traza_asentado [OF it this] nv show ?thesis
      by (auto simp: update_conv')
  qed
  have "fijo_tras n y [Actualizando v x u]"
    if "(n, y) \<in> set (asentados (salida s))" for n y
    using inv_traza_asentado [OF it that] nv by auto
  then show "traza_fija (salida (mejora m u v x s))"
    using inv_traza_fija [OF it] by (simp add: traza_fija_append)
  show "distinct (map fst (asentados (salida (mejora m u v x s))))"
    unfolding as using it by (rule inv_traza_distinct)
  show "instantaneas (insert a (fst ` set g)) (salida (mejora m u v x s))"
    using inv_traza_instantaneas [OF it] by (simp add: instantaneas_append)
  show "fst ` set (asentados (salida (mejora m u v x s))) = visitados (mejora m u v x s)"
    if m unfolding as using inv_traza_con [of g a s] it that by simp
  show "numeros (salida (mejora m u v x s)) = [0..<paso (mejora m u v x s)]"
    if m unfolding nu using inv_traza_con [of g a s] it that by simp
  show "salida (mejora m u v x s) = []" if "\<not> m"
    using inv_traza_sin [of g a s] it that by simp
qed

lemma inv_traza_paso:
  assumes "inv_traza g a m s" and "paso_relajar m u d e s = Inr s'"
  shows "inv_traza g a m s'"
  using assms(2)
proof (cases rule: paso_relajar_casos)
  case igual
  with assms(1) show ?thesis by simp
next
  case (mejor y)
  with assms(1) show ?thesis by (simp add: inv_traza_mejora)
qed

section \<open>The order of the confirmed distances\<close>

lemma inv_orden_inicial: "inv_orden (estado_inicial g a)"
  by (simp add: inv_orden_def estado_inicial_def)

lemma inv_orden_descartar:
  assumes "inv_orden s"
  shows "inv_orden (descartar s)"
proof -
  have "x \<le> y"
    if "(n, x) \<in> set (asentados (salida s))" "(y, v) \<in> set (snd (heappop (cola s)))"
    for n x y v
  proof -
    from that(2) have "(y, v) \<in> set (cola s)" by (rule heappop_resto_sub)
    with assms that(1) show ?thesis unfolding inv_orden_def by blast
  qed
  with assms show ?thesis
    unfolding inv_orden_def by auto
qed

lemma curso_orden_asentar:
  assumes io: "inv_orden s" and ne: "cola s \<noteq> []" and pop: "fst (heappop (cola s)) = (d, u)"
  shows "curso_orden d (asentar m u d s)"
proof -
  have en: "(d, u) \<in> set (cola s)"
    using heappop_en [OF ne] pop by simp
  have ant: "x \<le> d" if "(n, x) \<in> set (asentados (salida s))" for n x
    using io that en unfolding inv_orden_def by blast
  have cola: "d \<le> y" if "(y, v) \<in> set (snd (heappop (cola s)))" for y v
  proof -
    from that have "(y, v) \<in> set (cola s)" by (rule heappop_resto_sub)
    then have "(d, u) \<le> (y, v)"
      using heappop_minimo [of "(y, v)" "cola s"] pop by simp
    then show ?thesis by (rule par_menor_fst)
  qed
  have ord: "sorted (map snd (asentados (salida s)))"
    using io by (simp add: inv_orden_def)
  show ?thesis
  proof (cases m)
    case True
    have "sorted (map snd (asentados (salida s)) @ [d])"
      using ord ant by (auto simp: sorted_append)
    with True ant cola show ?thesis
      by (auto simp: curso_orden_def asentados_append)
  next
    case False
    with ord ant cola show ?thesis
      by (auto simp: curso_orden_def)
  qed
qed

lemma curso_orden_mejora:
  assumes "curso_orden d s" and "0 \<le> w"
  shows "curso_orden d (mejora m u v (d + w) s)"
  using assms unfolding curso_orden_def
  by (auto simp: asentados_append)

lemma curso_orden_inv_orden: "curso_orden d s \<Longrightarrow> inv_orden s"
  unfolding curso_orden_def inv_orden_def by (elim conjE) (meson order_trans)

section \<open>The trace of a whole run\<close>

lemma inv_reg_inicial: "inv_reg g a m (estado_inicial g a)"
  by (simp add: inv_reg_def inv_cola_inicial inv_traza_inicial inv_orden_inicial)

lemma inv_reg_descartar:
  assumes "inv_reg g a m s" and "cola s \<noteq> []" and "fst (heappop (cola s)) = (d, u)"
    and "u \<in> visitados s"
  shows "inv_reg g a m (descartar s)"
  using assms
  by (simp add: inv_reg_def inv_cola_descartar inv_traza_descartar inv_orden_descartar)

lemma curso_reg_asentar:
  assumes "inv_reg g a m s" and "cola s \<noteq> []" and "fst (heappop (cola s)) = (d, u)"
    and "u \<notin> visitados s"
  shows "curso_reg g a m u d (asentar m u d s)"
proof -
  from assms(1) have ic: "inv_cola g a s" and it: "inv_traza g a m s"
    and io: "pesos_no_negativos g \<longrightarrow> inv_orden s"
    by (simp_all add: inv_reg_def)
  have du: "map_of (distancias s) u = Some (Fin d)"
    using ic assms(2,3,4) by (rule inv_cola_dist_popped)
  have "curso g a u d (asentar m u d s)"
    using ic assms(2,3,4) by (rule curso_asentar)
  moreover have "inv_traza g a m (asentar m u d s)"
    using it ic du assms(4) by (rule inv_traza_asentar)
  moreover have "curso_orden d (asentar m u d s)" if "pesos_no_negativos g"
    using that io assms(2,3) by (simp add: curso_orden_asentar)
  ultimately show ?thesis by (simp add: curso_reg_def)
qed

lemma curso_reg_paso:
  assumes "curso_reg g a m u d s" and "map_of g u = Some vs" and "e \<in> set vs"
    and "paso_relajar m u d e s = Inr s'"
  shows "curso_reg g a m u d s'"
proof -
  from assms(1) have c: "curso g a u d s" and it: "inv_traza g a m s"
    and co: "pesos_no_negativos g \<longrightarrow> curso_orden d s"
    by (simp_all add: curso_reg_def)
  have "curso g a u d s'"
    using c assms(4) by (rule curso_paso)
  moreover have "inv_traza g a m s'"
    using it assms(4) by (rule inv_traza_paso)
  moreover have "curso_orden d s'" if nn: "pesos_no_negativos g"
    using assms(4)
  proof (cases rule: paso_relajar_casos)
    case igual
    with co nn show ?thesis by simp
  next
    case (mejor y)
    have "arista g u (fst e) (snd e)"
      using assms(2,3) by (simp add: arista_map_of)
    with nn have "0 \<le> snd e" by (rule arista_no_negativa)
    with co nn show ?thesis
      unfolding mejor(4) by (simp add: curso_orden_mejora)
  qed
  ultimately show ?thesis by (simp add: curso_reg_def)
qed

lemma curso_reg_cierra:
  assumes "curso_reg g a m u d s"
  shows "inv_reg g a m s"
proof -
  from assms have c: "curso g a u d s" and it: "inv_traza g a m s"
    and co: "pesos_no_negativos g \<longrightarrow> curso_orden d s"
    by (simp_all add: curso_reg_def)
  from c have "inv_cola g a s" by (rule curso_inv_cola)
  moreover have "inv_orden s" if "pesos_no_negativos g"
    using co that by (simp add: curso_orden_inv_orden)
  ultimately show ?thesis using it by (simp add: inv_reg_def)
qed

lemma inv_reg_traza_buena: "inv_reg g a m s \<Longrightarrow> traza_buena g a m s"
  by (simp add: inv_reg_def traza_buena_def inv_orden_def)

lemma curso_reg_traza_buena: "curso_reg g a m u d s \<Longrightarrow> traza_buena g a m s"
  by (simp add: curso_reg_def traza_buena_def curso_orden_def)

lemma bucle_traza:
  "\<exists>t. traza_buena g a m t
     \<and> (case bucle g fin m (estado_inicial g a) of
          Inl f \<Rightarrow> snd f = salida t
        | Inr s \<Rightarrow> s = t)"
proof (rule bucle_regla [where I = "inv_reg g a m" and R = "\<lambda>u d D. curso_reg g a m u d"
      and Q = "\<lambda>r. \<exists>t. traza_buena g a m t
                 \<and> (case r of Inl f \<Rightarrow> snd f = salida t | Inr s \<Rightarrow> s = t)"])
  show "inv_reg g a m (estado_inicial g a)" by (rule inv_reg_inicial)
next
  fix t assume "inv_reg g a m t"
  then have "traza_buena g a m t" by (rule inv_reg_traza_buena)
  then show "\<exists>t'. traza_buena g a m t'
      \<and> (case Inr t of Inl f \<Rightarrow> snd f = salida t' | Inr s \<Rightarrow> s = t')"
    by auto
next
  fix u d t assume "curso_reg g a m u d t"
  then have "traza_buena g a m t" by (rule curso_reg_traza_buena)
  then show "\<exists>t'. traza_buena g a m t'
      \<and> (case Inr t of Inl f \<Rightarrow> snd f = salida t' | Inr s \<Rightarrow> s = t')"
    by auto
next
  fix u d t assume "curso_reg g a m u d t"
  then have "traza_buena g a m t" by (rule curso_reg_traza_buena)
  then show "\<exists>t'. traza_buena g a m t'
      \<and> (case Inl (KeyError u, salida t) of Inl f \<Rightarrow> snd f = salida t' | Inr s \<Rightarrow> s = t')"
    by auto
next
  fix u d D t vs e f
  assume "curso_reg g a m u d t" and f: "paso_relajar m u d e t = Inl f"
  then have "traza_buena g a m t" by (simp add: curso_reg_traza_buena)
  moreover from paso_relajar_Inl [OF f] have "snd f = salida t" by simp
  ultimately show "\<exists>t'. traza_buena g a m t'
      \<and> (case Inl f of Inl f \<Rightarrow> snd f = salida t' | Inr s \<Rightarrow> s = t')"
    by auto
qed (simp_all add: inv_reg_descartar curso_reg_asentar curso_reg_paso curso_reg_cierra)

lemma dijkstra_traza:
  "\<exists>t. traza_buena g a m t \<and> fst (dijkstra g a fin m) = salida t
     \<and> (\<forall>s. bucle g fin m (estado_inicial g a) = Inr s \<longrightarrow> s = t)"
proof -
  from bucle_traza [of g a m fin] obtain t where t: "traza_buena g a m t"
    "case bucle g fin m (estado_inicial g a) of Inl f \<Rightarrow> snd f = salida t | Inr s \<Rightarrow> s = t"
    by blast
  have "fst (dijkstra g a fin m) = salida t"
    using t(2) by (auto simp: dijkstra_def split: sum.splits prod.splits)
  moreover have "\<forall>s. bucle g fin m (estado_inicial g a) = Inr s \<longrightarrow> s = t"
    using t(2) by auto
  ultimately show ?thesis using t(1) by blast
qed


section \<open>The snapshots of the steps\<close>














section \<open>Runs on equal graphs\<close>

lemma paso_relajar_abs:
  "resultado (paso_relajar m u d e s) = paso_abs u d e (Some (contenido s))"
  by (cases e)
    (simp add: paso_relajar_def resultado_def contenido_def update_conv'
      split: option.split)

lemma fold_paso_abs_None: "fold (paso_abs u d) vs None = None"
  by (induction vs) auto

lemma relajar_abs:
  "resultado (relajar m u d vs s) = fold (paso_abs u d) vs (Some (contenido s))"
proof (induction vs arbitrary: s)
  case Nil
  show ?case by (simp add: resultado_def)
next
  case (Cons e vs)
  show ?case
  proof (cases "paso_relajar m u d e s")
    case (Inl f)
    then have "paso_abs u d e (Some (contenido s)) = None"
      using paso_relajar_abs [of m u d e s] by (simp add: resultado_def)
    with Inl show ?thesis
      by (simp add: relajar_Cons resultado_def fold_paso_abs_None)
  next
    case (Inr t)
    then have "paso_abs u d e (Some (contenido s)) = Some (contenido t)"
      using paso_relajar_abs [of m u d e s] by (simp add: resultado_def)
    with Inr Cons.IH [of t] show ?thesis
      by (simp add: relajar_Cons)
  qed
qed

lemma paso_abs_conmuta:
  assumes "fst e \<noteq> fst e'"
  shows "paso_abs u d e (paso_abs u d e' c) = paso_abs u d e' (paso_abs u d e c)"
proof (cases c)
  case None
  then show ?thesis by (cases e; cases e') simp
next
  case (Some x)
  obtain D A Q V where x: "x = (D, A, Q, V)" by (cases x)
  obtain v w where e: "e = (v, w)" by (cases e)
  obtain v' w' where e': "e' = (v', w')" by (cases e')
  from assms e e' have ne: "v \<noteq> v'" by simp
  show ?thesis
    unfolding Some x e e' using ne
    by (auto simp: fun_upd_twist add.commute add.left_commute split: option.splits)
qed

lemma fold_paso_abs_igual:
  assumes "mset vs = mset ws" and "vs = ws \<or> distinct (map fst vs)"
  shows "fold (paso_abs u d) vs c = fold (paso_abs u d) ws c"
proof (cases "vs = ws")
  case True
  then show ?thesis by simp
next
  case False
  with assms(2) have dis: "distinct (map fst vs)" by simp
  have "fold (paso_abs u d) vs = fold (paso_abs u d) ws"
  proof (rule fold_multiset_equiv)
    fix x y assume "x \<in> set vs" "y \<in> set vs"
    show "paso_abs u d x \<circ> paso_abs u d y = paso_abs u d y \<circ> paso_abs u d x"
    proof (cases "x = y")
      case True
      then show ?thesis by simp
    next
      case False
      with dis \<open>x \<in> set vs\<close> \<open>y \<in> set vs\<close> have "fst x \<noteq> fst y"
        by (metis distinct_map inj_onD)
      then show ?thesis
        by (auto simp: fun_eq_iff paso_abs_conmuta)
    qed
  qed (rule assms(1))
  then show ?thesis by simp
qed

lemma contenido_descartar:
  "contenido s = contenido t \<Longrightarrow> contenido (descartar s) = contenido (descartar t)"
  by (simp add: contenido_def heappop_def Let_def) (metis set_mset_mset)

lemma contenido_asentar:
  "contenido s = contenido t \<Longrightarrow> contenido (asentar m u d s) = contenido (asentar m' u d t)"
  by (simp add: contenido_def heappop_def Let_def) (metis set_mset_mset)

lemma contenido_pop:
  assumes "contenido s = contenido t"
  shows "fst (heappop (cola s)) = fst (heappop (cola t))"
    and "cola s = [] \<longleftrightarrow> cola t = []"
    and "visitados s = visitados t"
proof -
  from assms have m: "mset (cola s) = mset (cola t)" and v: "visitados s = visitados t"
    by (simp_all add: contenido_def)
  from m have "set (cola s) = set (cola t)" by (metis set_mset_mset)
  then show "fst (heappop (cola s)) = fst (heappop (cola t))"
    by (simp add: heappop_def Let_def)
  from m show "cola s = [] \<longleftrightarrow> cola t = []"
    by (metis mset_zero_iff)
  from v show "visitados s = visitados t" .
qed

lemma vecinos_iguales_None:
  "vecinos_iguales g h \<Longrightarrow> map_of g u = None \<Longrightarrow> map_of h u = None"
  unfolding vecinos_iguales_def by (drule spec [of _ u]) simp

lemma vecinos_iguales_Some:
  "vecinos_iguales g h \<Longrightarrow> map_of g u = Some vs \<Longrightarrow>
     \<exists>ws. map_of h u = Some ws \<and> mset vs = mset ws \<and> (vs = ws \<or> distinct (map fst vs))"
  unfolding vecinos_iguales_def by (drule spec [of _ u]) simp

lemma bucle_equiv:
  assumes "vecinos_iguales g h" and "contenido s = contenido t"
  shows "resultado (bucle g fin m s) = resultado (bucle h fin m' t)"
  using assms
proof (induction g fin m s arbitrary: t rule: bucle.induct)
  case (1 g fin m s)
  note vi = "1.prems"(1) and ct = "1.prems"(2)
  note pop = contenido_pop [OF ct]
  show ?case
  proof (cases "cola s = []")
    case True
    with pop(2) have "cola t = []" by simp
    with True ct show ?thesis
      by (simp add: bucle.simps resultado_def)
  next
    case False
    with pop(2) have ft: "cola t \<noteq> []" by simp
    obtain d u where du: "fst (heappop (cola s)) = (d, u)"
      by (cases "fst (heappop (cola s))")
    with pop(1) have dut: "fst (heappop (cola t)) = (d, u)" by simp
    show ?thesis
    proof (cases "u \<in> visitados s")
      case True
      with pop(3) have ut: "u \<in> visitados t" by simp
      have its: "iteracion g fin m s = Sigue (descartar s)"
        using du True by (rule iteracion_visitado)
      have itt: "iteracion h fin m' t = Sigue (descartar t)"
        using dut ut by (rule iteracion_visitado)
      have "resultado (bucle g fin m (descartar s)) = resultado (bucle h fin m' (descartar t))"
        using False its vi contenido_descartar [OF ct] by (rule "1.IH")
      moreover have "bucle g fin m s = bucle g fin m (descartar s)"
        using False its by (subst bucle.simps) simp
      moreover have "bucle h fin m' t = bucle h fin m' (descartar t)"
        using ft itt by (subst bucle.simps) simp
      ultimately show ?thesis by simp
    next
      case nuevo: False
      with pop(3) have nt: "u \<notin> visitados t" by simp
      note its = iteracion_nuevo [OF du nuevo, of g fin m]
      note itt = iteracion_nuevo [OF dut nt, of h fin m']
      note c3 = contenido_asentar [OF ct, of m u d m']
      show ?thesis
      proof (cases "fin = Some u")
        case True
        have "bucle g fin m s = Inr (asentar m u d s)"
          using False its True by (subst bucle.simps) simp
        moreover have "bucle h fin m' t = Inr (asentar m' u d t)"
          using ft itt True by (subst bucle.simps) simp
        ultimately show ?thesis using c3 by (simp add: resultado_def del: asentar_campos)
      next
        case nofin: False
        show ?thesis
        proof (cases "map_of g u")
          case None
          with vi have nh: "map_of h u = None"
            by (rule vecinos_iguales_None)
          have "bucle g fin m s = Inl (KeyError u, salida (asentar m u d s))"
            using False its nofin None by (subst bucle.simps) simp
          moreover have "bucle h fin m' t = Inl (KeyError u, salida (asentar m' u d t))"
            using ft itt nofin nh by (subst bucle.simps) simp
          ultimately show ?thesis by (simp add: resultado_def del: asentar_campos)
        next
          case (Some vs)
          from vecinos_iguales_Some [OF vi Some]
          obtain ws where ws: "map_of h u = Some ws" "mset vs = mset ws"
            "vs = ws \<or> distinct (map fst vs)"
            by blast
          have rel: "resultado (relajar m u d vs (asentar m u d s))
              = resultado (relajar m' u d ws (asentar m' u d t))"
            unfolding relajar_abs c3 using ws(2,3) by (rule fold_paso_abs_igual)
          show ?thesis
          proof (cases "relajar m u d vs (asentar m u d s)")
            case (Inl f)
            with rel obtain f' where f': "relajar m' u d ws (asentar m' u d t) = Inl f'"
              by (cases "relajar m' u d ws (asentar m' u d t)") (simp_all add: resultado_def)
            have "bucle g fin m s = Inl f"
              using False its nofin Some Inl by (subst bucle.simps) (simp split: prod.split)
            moreover have "bucle h fin m' t = Inl f'"
              using ft itt nofin ws(1) f' by (subst bucle.simps) (simp split: prod.split)
            ultimately show ?thesis by (simp add: resultado_def)
          next
            case (Inr s4)
            with rel obtain t4 where t4: "relajar m' u d ws (asentar m' u d t) = Inr t4"
              "contenido s4 = contenido t4"
              by (cases "relajar m' u d ws (asentar m' u d t)") (simp_all add: resultado_def)
            have its4: "iteracion g fin m s = Sigue s4"
              using its nofin Some Inr by simp
            have itt4: "iteracion h fin m' t = Sigue t4"
              using itt nofin ws(1) t4(1) by simp
            have "resultado (bucle g fin m s4) = resultado (bucle h fin m' t4)"
              using False its4 vi t4(2) by (rule "1.IH")
            moreover have "bucle g fin m s = bucle g fin m s4"
              using False its4 by (subst bucle.simps) simp
            moreover have "bucle h fin m' t = bucle h fin m' t4"
              using ft itt4 by (subst bucle.simps) simp
            ultimately show ?thesis by simp
          qed
        qed
      qed
    qed
  qed
qed

lemma vecinos_iguales_refl: "vecinos_iguales g g"
  unfolding vecinos_iguales_def by (simp split: option.split)

lemma mismo_grafo_vecinos:
  assumes "mismo_grafo g h"
  shows "vecinos_iguales g h"
  unfolding vecinos_iguales_def
proof
  fix u
  from assms have dg: "distinct (map fst g)" and dh: "distinct (map fst h)"
    and k: "fst ` set g = fst ` set h"
    and v: "\<And>vs ws. (u, vs) \<in> set g \<Longrightarrow> (u, ws) \<in> set h \<Longrightarrow> mismo_dict vs ws"
    unfolding mismo_grafo_def by auto
  show "case map_of g u of
          None \<Rightarrow> map_of h u = None
        | Some vs \<Rightarrow>
            (\<exists>ws. map_of h u = Some ws \<and> mset vs = mset ws
               \<and> (vs = ws \<or> distinct (map fst vs)))"
  proof (cases "map_of g u")
    case None
    then have "u \<notin> fst ` set g" by (simp add: map_of_eq_None_iff)
    with k have "map_of h u = None" by (simp add: map_of_eq_None_iff)
    with None show ?thesis by simp
  next
    case (Some vs)
    then have ug: "(u, vs) \<in> set g" by (rule map_of_SomeD)
    then have "u \<in> fst ` set g" by (metis fst_conv image_eqI)
    with k have "map_of h u \<noteq> None" by (simp add: map_of_eq_None_iff)
    then obtain ws where ws: "map_of h u = Some ws" by auto
    then have "(u, ws) \<in> set h" by (rule map_of_SomeD)
    with ug have md: "mismo_dict vs ws" by (rule v)
    then have "distinct (map fst vs)" "distinct (map fst ws)" "set vs = set ws"
      by (simp_all add: mismo_dict_def)
    moreover from this have "distinct vs" "distinct ws"
      by (simp_all add: distinct_map)
    ultimately have "mset vs = mset ws \<and> distinct (map fst vs)"
      by (simp add: set_eq_iff_mset_eq_distinct)
    with Some ws show ?thesis by simp
  qed
qed

lemma vecinos_iguales_claves:
  assumes "vecinos_iguales g h"
  shows "fst ` set g = fst ` set h"
proof -
  have "u \<in> fst ` set g \<longleftrightarrow> u \<in> fst ` set h" for u
  proof (cases "map_of g u")
    case None
    with vecinos_iguales_None [OF assms None] show ?thesis
      by (simp add: map_of_eq_None_iff)
  next
    case (Some vs)
    with vecinos_iguales_Some [OF assms Some] show ?thesis
      by (metis map_of_clave)
  qed
  then show ?thesis by blast
qed

lemma contenido_inicial:
  assumes "vecinos_iguales g h"
  shows "contenido (estado_inicial g a) = contenido (estado_inicial h a)"
proof -
  note k = vecinos_iguales_claves [OF assms]
  have "map_of (map (\<lambda>(n, _). (n, Infinito)) g) = map_of (map (\<lambda>(n, _). (n, Infinito)) h)"
    by (rule ext) (simp add: map_of_inicial k)
  moreover
  have "map_of (map (\<lambda>(n, _). (n, None :: 'a option)) g)
      = map_of (map (\<lambda>(n, _). (n, None)) h)"
    by (rule ext) (simp add: map_of_inicial k)
  ultimately show ?thesis
    by (simp add: contenido_def estado_inicial_def update_conv')
qed

lemma dijkstra_equiv:
  assumes "vecinos_iguales g h"
  shows "case snd (dijkstra g a fin m) of
           Inl e \<Rightarrow> (\<exists>e'. snd (dijkstra h a fin m') = Inl e')
         | Inr (dist, prev) \<Rightarrow>
             (\<exists>dist' prev'. snd (dijkstra h a fin m') = Inr (dist', prev')
                \<and> map_of dist' = map_of dist \<and> map_of prev' = map_of prev)"
proof -
  have r: "resultado (bucle g fin m (estado_inicial g a))
      = resultado (bucle h fin m' (estado_inicial h a))"
    using assms contenido_inicial [OF assms] by (rule bucle_equiv)
  show ?thesis
  proof (cases "bucle g fin m (estado_inicial g a)")
    case (Inl f)
    with r obtain f' where "bucle h fin m' (estado_inicial h a) = Inl f'"
      by (cases "bucle h fin m' (estado_inicial h a)") (simp_all add: resultado_def)
    with Inl show ?thesis
      by (simp add: dijkstra_def split: prod.splits)
  next
    case (Inr s)
    with r obtain t where t: "bucle h fin m' (estado_inicial h a) = Inr t"
      "contenido s = contenido t"
      by (cases "bucle h fin m' (estado_inicial h a)") (simp_all add: resultado_def)
    with Inr show ?thesis
      by (simp add: dijkstra_def contenido_def)
  qed
qed

text \<open>
  C9. Two runs of \<open>dijkstra\<close> on equal graphs (equal as Python dicts, so in whatever
  order their keys were inserted), with the same source, target and trace flag, end the
  same way: when one returns, the other returns equal distances and equal
  predecessors, and when one raises, so does the other. Each run starts from the
  state that \<open>estado_inicial\<close> builds from its arguments alone.
\<close>

theorem dijkstra_determinista:
  assumes "mismo_grafo g h"
  shows "(\<forall>dist prev. snd (dijkstra g a fin m) = Inr (dist, prev) \<longrightarrow>
            (\<exists>dist' prev'. snd (dijkstra h a fin m) = Inr (dist', prev')
               \<and> map_of dist' = map_of dist \<and> map_of prev' = map_of prev))
       \<and> (\<forall>e. snd (dijkstra g a fin m) = Inl e \<longrightarrow>
            (\<exists>e'. snd (dijkstra h a fin m) = Inl e'))"
  using dijkstra_equiv [OF mismo_grafo_vecinos [OF assms], where a = a and fin = fin
      and m = m and m' = m]
  by (auto split: sum.splits)

theorem dijkstra_determinista_witness:
  "mismo_grafo grafo_ejemplo
     [(''D'', []), (''C'', [(''D'', 3)]), (''B'', [(''D'', 10), (''C'', 5)]),
      (''A'', [(''C'', 2), (''B'', 4)])]
   \<and> snd (dijkstra grafo_ejemplo ''A'' (Some ''D'') True) =
       Inr ([(''A'', Fin 0), (''B'', Fin 4), (''C'', Fin 2), (''D'', Fin 5)],
            [(''A'', None), (''B'', Some ''A''), (''C'', Some ''A''), (''D'', Some ''C'')])
   \<and> snd (dijkstra [(''D'', []), (''C'', [(''D'', 3)]), (''B'', [(''D'', 10), (''C'', 5)]),
                     (''A'', [(''C'', 2), (''B'', 4)])] ''A'' (Some ''D'') True) =
       Inr ([(''D'', Fin 5), (''C'', Fin 2), (''B'', Fin 4), (''A'', Fin 0)],
            [(''D'', Some ''C''), (''C'', Some ''A''), (''B'', Some ''A''), (''A'', None)])
   \<and> map_of [(''D'', Fin 5), (''C'', Fin 2), (''B'', Fin 4), (''A'', Fin 0)]
       = map_of [(''A'', Fin 0), (''B'', Fin 4), (''C'', Fin 2), (''D'', Fin 5)]"
proof -
  let ?h = "[(''D'', []), (''C'', [(''D'', 3)]), (''B'', [(''D'', 10), (''C'', 5)]),
      (''A'', [(''C'', 2), (''B'', 4)])] :: string grafo"
  have mg: "mismo_grafo grafo_ejemplo ?h"
    by (simp add: mismo_grafo_def mismo_dict_def grafo_ejemplo_def) auto
  have r1: "snd (dijkstra grafo_ejemplo ''A'' (Some ''D'') True) =
       Inr ([(''A'', Fin 0), (''B'', Fin 4), (''C'', Fin 2), (''D'', Fin 5)],
            [(''A'', None), (''B'', Some ''A''), (''C'', Some ''A''), (''D'', Some ''C'')])"
    by code_simp
  have r2: "snd (dijkstra ?h ''A'' (Some ''D'') True) =
       Inr ([(''D'', Fin 5), (''C'', Fin 2), (''B'', Fin 4), (''A'', Fin 0)],
            [(''D'', Some ''C''), (''C'', Some ''A''), (''B'', Some ''A''), (''A'', None)])"
    by code_simp
  from dijkstra_determinista [OF mg, of "''A''" "Some ''D''" True] r1 r2
  have "map_of [(''D'', Fin 5), (''C'', Fin 2), (''B'', Fin 4), (''A'', Fin 0)]
       = map_of [(''A'', Fin 0), (''B'', Fin 4), (''C'', Fin 2), (''D'', Fin 5)]"
    by simp
  with mg r1 r2 show ?thesis by simp
qed

text \<open>
  C6. On a graph with non-negative weights, in the trace of a run: no node is settled
  twice, the confirmed distances are in non-decreasing order, every step shows its node
  at the confirmed distance, and after the step of a node no line updates that node and
  every later snapshot shows its confirmed distance. The distance map that the run
  returns, with tracing on or off, holds the confirmed distance of every settled node.
\<close>

theorem asentamiento_ordenado:
  assumes "pesos_no_negativos g"
  shows "distinct (map fst (asentados (fst (dijkstra g a fin True))))
       \<and> sorted (map snd (asentados (fst (dijkstra g a fin True))))
       \<and> instantaneas (insert a (fst ` set g)) (fst (dijkstra g a fin True))
       \<and> traza_fija (fst (dijkstra g a fin True))
       \<and> (\<forall>m dist prev n d. snd (dijkstra g a fin m) = Inr (dist, prev) \<longrightarrow>
            (n, d) \<in> set (asentados (fst (dijkstra g a fin True))) \<longrightarrow>
            map_of dist n = Some (Fin d))"
proof -
  obtain t where t: "traza_buena g a True t" "fst (dijkstra g a fin True) = salida t"
    "\<forall>s. bucle g fin True (estado_inicial g a) = Inr s \<longrightarrow> s = t"
    using dijkstra_traza [where g = g and a = a and m = True and fin = fin] by blast
  from t(1) assms have it: "inv_traza g a True t"
    and ord: "sorted (map snd (asentados (salida t)))"
    by (simp_all add: traza_buena_def)
  have "map_of dist n = Some (Fin d)"
    if r: "snd (dijkstra g a fin m) = Inr (dist, prev)"
      and n: "(n, d) \<in> set (asentados (salida t))" for m dist prev n d
  proof -
    from dijkstra_equiv [where g = g and h = g and a = a and fin = fin and m = m
        and m' = True, OF vecinos_iguales_refl] r
    obtain dist' prev' where r': "snd (dijkstra g a fin True) = Inr (dist', prev')"
      and eq: "map_of dist' = map_of dist"
      by auto
    show ?thesis
    proof (cases "bucle g fin True (estado_inicial g a)")
      case (Inl f)
      with r' show ?thesis by (simp add: dijkstra_def split: prod.splits)
    next
      case (Inr s)
      with t(3) have "s = t" by simp
      with Inr r' have "dist' = distancias t" by (simp add: dijkstra_def)
      with inv_traza_asentado [OF it n] eq show ?thesis by simp
    qed
  qed
  with ord inv_traza_distinct [OF it] inv_traza_instantaneas [OF it] inv_traza_fija [OF it]
  show ?thesis
    unfolding t(2) by blast
qed


theorem asentamiento_ordenado_witness:
  "pesos_no_negativos grafo_ejemplo
   \<and> asentados (fst (dijkstra grafo_ejemplo ''A'' None True))
       = [(''A'', 0), (''C'', 2), (''B'', 4), (''D'', 5)]
   \<and> sorted (map snd (asentados (fst (dijkstra grafo_ejemplo ''A'' None True))))
   \<and> traza_fija (fst (dijkstra grafo_ejemplo ''A'' None True))
   \<and> snd (dijkstra grafo_ejemplo ''A'' None True) =
       Inr ([(''A'', Fin 0), (''B'', Fin 4), (''C'', Fin 2), (''D'', Fin 5)],
            [(''A'', None), (''B'', Some ''A''), (''C'', Some ''A''), (''D'', Some ''C'')])
   \<and> map_of [(''A'', Fin 0), (''B'', Fin 4), (''C'', Fin 2), (''D'', Fin 5)] ''B''
       = Some (Fin 4)"
proof -
  have nn: "pesos_no_negativos grafo_ejemplo"
    by (simp add: pesos_no_negativos_def grafo_ejemplo_def)
  have a: "asentados (fst (dijkstra grafo_ejemplo ''A'' None True))
       = [(''A'', 0), (''C'', 2), (''B'', 4), (''D'', 5)]"
    by code_simp
  have r: "snd (dijkstra grafo_ejemplo ''A'' None True) =
       Inr ([(''A'', Fin 0), (''B'', Fin 4), (''C'', Fin 2), (''D'', Fin 5)],
            [(''A'', None), (''B'', Some ''A''), (''C'', Some ''A''), (''D'', Some ''C'')])"
    by code_simp
  note t = asentamiento_ordenado [OF nn, of "''A''" None]
  have en: "(''B'', 4) \<in> set (asentados (fst (dijkstra grafo_ejemplo ''A'' None True)))"
    unfolding a by simp
  from t r en
  have "map_of [(''A'', Fin 0), (''B'', Fin 4), (''C'', Fin 2), (''D'', Fin 5)] ''B''
       = Some (Fin 4)"
    by blast
  moreover from t have "sorted (map snd (asentados (fst (dijkstra grafo_ejemplo ''A'' None True))))"
    and "traza_fija (fst (dijkstra grafo_ejemplo ''A'' None True))"
    by blast+
  ultimately show ?thesis using nn a r by blast
qed

end
